theory Spec2Isabelle
  imports Main "HOL-Library.Multiset"
begin

section \<open>Data model of the cookbook service\<close>

text \<open>
  The service keeps its cookbook as a list of JSON objects, one per line of the cookbook
  file, in the order in which they were written. An object carries the key \<open>type\<close>
  (a string), the key \<open>name\<close>, and either \<open>cookTime\<close> (an ingredient) or
  \<open>requiredItems\<close> (a recipe). The code reads \<open>cookTime\<close> only of objects of type
  \<open>ingredient\<close> and \<open>requiredItems\<close> only of objects of type \<open>recipe\<close>, so one
  record with all four fields stands for both shapes. Python integers are unbounded:
  \<open>int\<close>.
\<close>

record RequiredItem =
  item_name :: string
  item_quantity :: int

record CookbookEntry =
  etype :: string
  name :: string
  cookTime :: int
  requiredItems :: "RequiredItem list"

type_synonym cookbook = "CookbookEntry list"

text \<open>
  A response of an endpoint is either an error or a payload. \<open>BadRequest msg\<close> is the
  pair \<open>jsonify({'error': msg}), 400\<close>; \<open>KeyError k\<close> is the exception Python raises
  when a dictionary is indexed at a key it does not hold.
\<close>

datatype error = BadRequest string | KeyError string

subsection \<open>Cookbook access\<close>

text \<open>\<open>look_for_item\<close>: the first object of the cookbook with the given name.\<close>

fun look_for_item :: "string \<Rightarrow> cookbook \<Rightarrow> CookbookEntry option" where
  "look_for_item nm [] = None"
| "look_for_item nm (item # cookbook) =
     (if name item = nm then Some item else look_for_item nm cookbook)"

text \<open>\<open>store_cookbook\<close> opens the file in append mode and writes one line.\<close>

definition store_cookbook :: "CookbookEntry \<Rightarrow> cookbook \<Rightarrow> cookbook" where
  "store_cookbook data cookbook = cookbook @ [data]"

section \<open>Task 3: the summary of a recipe\<close>

text \<open>
  The dictionary \<open>ingredients\<close> of \<open>summary\<close> maps a name to its accumulated quantity
  and its unit cook time. A Python dictionary keeps its keys in insertion order, and the
  response lists them in that order, so the model is an association list with distinct
  keys: assigning to a present key keeps its place, assigning to a new key appends, and
  \<open>pop\<close> removes the key.
\<close>

record IngredientInfo =
  quantity :: int
  unit_cook_time :: int

type_synonym ingredient_dict = "(string \<times> IngredientInfo) list"

fun dict_set :: "string \<Rightarrow> IngredientInfo \<Rightarrow> ingredient_dict \<Rightarrow> ingredient_dict" where
  "dict_set k v [] = [(k, v)]"
| "dict_set k v (p # ps) = (if fst p = k then (k, v) # ps else p # dict_set k v ps)"

definition dict_pop :: "string \<Rightarrow> ingredient_dict \<Rightarrow> IngredientInfo option \<times> ingredient_dict" where
  "dict_pop k d = (map_of d k, filter (\<lambda>p. fst p \<noteq> k) d)"

text \<open>
  The inner loop over \<open>current_item['requiredItems']\<close>: every required name is appended
  to the queue, and its quantity, multiplied by the quantity popped for the recipe, is
  added to the entry of that name (a new entry starts with unit cook time 0).
\<close>

fun add_required_items ::
  "int \<Rightarrow> RequiredItem list \<Rightarrow> string list \<Rightarrow> ingredient_dict \<Rightarrow> string list \<times> ingredient_dict" where
  "add_required_items popped_item_quantity [] queue ingredients = (queue, ingredients)"
| "add_required_items popped_item_quantity (item # items) queue ingredients =
     add_required_items popped_item_quantity items (queue @ [item_name item])
       (case map_of ingredients (item_name item) of
          Some info \<Rightarrow>
            dict_set (item_name item)
              (info\<lparr>quantity := quantity info + popped_item_quantity * item_quantity item\<rparr>)
              ingredients
        | None \<Rightarrow>
            dict_set (item_name item)
              \<lparr>quantity = popped_item_quantity * item_quantity item, unit_cook_time = 0\<rparr>
              ingredients)"

text \<open>
  The body of the \<open>while\<close> loop once \<open>current_item\<close> has been found: the branch for a
  recipe, then the branch for an ingredient (two separate \<open>if\<close> statements in the
  source; an object of any other type passes both untouched). The assignment
  \<open>ingredients[name]['unit_cook_time'] = ...\<close> raises \<open>KeyError\<close> when the name is not
  a key of the dictionary.
\<close>

definition expand_recipe ::
  "CookbookEntry \<Rightarrow> string list \<Rightarrow> ingredient_dict \<Rightarrow> string list \<times> ingredient_dict" where
  "expand_recipe current_item queue ingredients =
     (if etype current_item = ''recipe'' then
        (let (popped_item, ingredients') = dict_pop (name current_item) ingredients;
             popped_item_quantity = (case popped_item of None \<Rightarrow> 0 | Some info \<Rightarrow> quantity info)
         in add_required_items popped_item_quantity (requiredItems current_item) queue ingredients')
      else (queue, ingredients))"

definition record_cook_time ::
  "CookbookEntry \<Rightarrow> ingredient_dict \<Rightarrow> error + ingredient_dict" where
  "record_cook_time current_item ingredients =
     (if etype current_item = ''ingredient'' then
        (case map_of ingredients (name current_item) of
           None \<Rightarrow> Inl (KeyError (name current_item))
         | Some info \<Rightarrow>
             Inr (dict_set (name current_item)
                    (info\<lparr>unit_cook_time := cookTime current_item\<rparr>) ingredients))
      else Inr ingredients)"

definition process_item ::
  "CookbookEntry \<Rightarrow> string list \<Rightarrow> ingredient_dict \<Rightarrow> error + (string list \<times> ingredient_dict)" where
  "process_item current_item queue ingredients =
     (let (queue', ingredients') = expand_recipe current_item queue ingredients
      in case record_cook_time current_item ingredients' of
           Inl e \<Rightarrow> Inl e
         | Inr ingredients'' \<Rightarrow> Inr (queue', ingredients''))"

text \<open>
  The \<open>while queue:\<close> loop. Nothing in the source bounds the number of rounds, so the
  loop is a partial function: \<open>None\<close> means that it never leaves the loop, \<open>Some\<close>
  carries the early error return or the dictionary at the end of the loop.
\<close>

partial_function (option) summary_loop ::
  "cookbook \<Rightarrow> string list \<Rightarrow> ingredient_dict \<Rightarrow> (error + ingredient_dict) option" where
  "summary_loop cookbook queue ingredients =
     (case queue of
        [] \<Rightarrow> Some (Inr ingredients)
      | current # rest \<Rightarrow>
          (case look_for_item current cookbook of
             None \<Rightarrow> Some (Inl (BadRequest ''Items not in the cookbook''))
           | Some current_item \<Rightarrow>
               (case process_item current_item rest ingredients of
                  Inl e \<Rightarrow> Some (Inl e)
                | Inr (queue', ingredients') \<Rightarrow> summary_loop cookbook queue' ingredients')))"

declare summary_loop.simps [code]

record Summary =
  summary_name :: string
  summary_cookTime :: int
  summary_ingredients :: "(string \<times> int) list"

definition total_cooktime :: "ingredient_dict \<Rightarrow> int" where
  "total_cooktime ingredients =
     sum_list (map (\<lambda>(k, info). quantity info * unit_cook_time info) ingredients)"

definition ingredients_list :: "ingredient_dict \<Rightarrow> (string \<times> int) list" where
  "ingredients_list ingredients = map (\<lambda>(k, info). (k, quantity info)) ingredients"

definition summary :: "cookbook \<Rightarrow> string \<Rightarrow> (error + Summary) option" where
  "summary cookbook nm =
     (case look_for_item nm cookbook of
        None \<Rightarrow> Some (Inl (BadRequest ''Recipe not found''))
      | Some target \<Rightarrow>
          if etype target \<noteq> ''recipe'' then Some (Inl (BadRequest ''Recipe not found''))
          else
            (case summary_loop cookbook [name target]
                    [(name target, \<lparr>quantity = 1, unit_cook_time = 0\<rparr>)] of
               None \<Rightarrow> None
             | Some (Inl e) \<Rightarrow> Some (Inl e)
             | Some (Inr ingredients) \<Rightarrow>
                 Some (Inr \<lparr>summary_name = nm,
                            summary_cookTime = total_cooktime ingredients,
                            summary_ingredients = ingredients_list ingredients\<rparr>)))"

text \<open>Constructors of the two kinds of cookbook objects.\<close>

definition Recipe :: "string \<Rightarrow> (string \<times> int) list \<Rightarrow> CookbookEntry" where
  "Recipe nm items =
     \<lparr>etype = ''recipe'', name = nm, cookTime = 0,
      requiredItems = map (\<lambda>(n, q). \<lparr>item_name = n, item_quantity = q\<rparr>) items\<rparr>"

definition Ingredient :: "string \<Rightarrow> int \<Rightarrow> CookbookEntry" where
  "Ingredient nm t = \<lparr>etype = ''ingredient'', name = nm, cookTime = t, requiredItems = []\<rparr>"

section \<open>Task 2: adding an entry to the cookbook\<close>

text \<open>
  \<open>create_entry\<close> reads the cookbook, runs its four checks in the order of the source
  and appends the request's object when all of them pass. The model returns the response
  together with the cookbook as it is stored afterwards. \<open>is_present\<close> is Python's
  \<open>any(...)\<close> over the cookbook; \<open>unique_names\<close> is the set built from the names of the
  required items, whose size is compared with the length of the list.
\<close>

definition create_entry :: "cookbook \<Rightarrow> CookbookEntry \<Rightarrow> (error + unit) \<times> cookbook" where
  "create_entry cookbook data =
     (if etype data \<notin> set [''recipe'', ''ingredient''] then
        (Inl (BadRequest ''Invalid type''), cookbook)
      else if etype data = ''ingredient'' \<and> cookTime data < 0 then
        (Inl (BadRequest ''Invalid cookTime''), cookbook)
      else
        (let is_present = list_ex (\<lambda>d. name d = name data) cookbook in
         if is_present then (Inl (BadRequest ''Name already exists''), cookbook)
         else if etype data = ''recipe'' \<and>
                 (let required_items = requiredItems data;
                      unique_names = set (map item_name required_items)
                  in card unique_names \<noteq> length required_items) then
           (Inl (BadRequest ''Required items must have unique names''), cookbook)
         else (Inr (), store_cookbook data cookbook)))"

text \<open>
  The invariants of a stored cookbook: names are unique over all entries, the required
  items of a recipe name no entry twice, and the cook time of an ingredient is not
  negative. \<open>valid_types\<close>: every entry is a recipe or an ingredient.
\<close>

definition unique_entry_names :: "cookbook \<Rightarrow> bool" where
  "unique_entry_names cookbook = distinct (map name cookbook)"

definition unique_required_names :: "cookbook \<Rightarrow> bool" where
  "unique_required_names cookbook =
     list_all (\<lambda>e. etype e = ''recipe'' \<longrightarrow> distinct (map item_name (requiredItems e))) cookbook"

definition nonnegative_cook_times :: "cookbook \<Rightarrow> bool" where
  "nonnegative_cook_times cookbook =
     list_all (\<lambda>e. etype e = ''ingredient'' \<longrightarrow> 0 \<le> cookTime e) cookbook"

definition valid_types :: "cookbook \<Rightarrow> bool" where
  "valid_types cookbook =
     list_all (\<lambda>e. etype e = ''recipe'' \<or> etype e = ''ingredient'') cookbook"

definition catalog_invariants :: "cookbook \<Rightarrow> bool" where
  "catalog_invariants cookbook \<longleftrightarrow>
     unique_entry_names cookbook \<and> unique_required_names cookbook \<and>
     nonnegative_cook_times cookbook"

text \<open>
  The requests that the four checks of \<open>create_entry\<close> are meant to turn down: a type
  that is neither \<open>recipe\<close> nor \<open>ingredient\<close>, an ingredient with a negative cook time,
  a name that the cookbook already holds, a recipe that names a required item twice.
\<close>

definition fails_validation :: "cookbook \<Rightarrow> CookbookEntry \<Rightarrow> bool" where
  "fails_validation cookbook data \<longleftrightarrow>
     (etype data \<noteq> ''recipe'' \<and> etype data \<noteq> ''ingredient'') \<or>
     (etype data = ''ingredient'' \<and> cookTime data < 0) \<or>
     list_ex (\<lambda>d. name d = name data) cookbook \<or>
     (etype data = ''recipe'' \<and> \<not> distinct (map item_name (requiredItems data)))"

section \<open>Task 1: cleaning a handwritten recipe name\<close>

text \<open>
  A Python string is a sequence of Unicode code points. The model is a list of code
  points, each a natural number; \<open>py\<close> writes such a string from an ASCII literal.
  \<open>is_letter\<close> is the class \<open>[a-zA-Z]\<close>. \<open>is_whitespace\<close> is the class \<open>\s\<close> of a
  Unicode pattern, which is also what \<open>str.strip\<close> removes: the code points 9 to 13, 28
  to 32, 133 (U+0085), 160 (U+00A0), 5760 (U+1680), 8192 to 8202 (U+2000 to U+200A), 8232
  (U+2028), 8233 (U+2029), 8239 (U+202F), 8287 (U+205F) and 12288 (U+3000). The space is
  32, the hyphen 45, the underscore 95.
\<close>

type_synonym code_point = nat

type_synonym pystr = "code_point list"

definition py :: "string \<Rightarrow> pystr" where
  "py s = map of_char s"

definition is_letter :: "code_point \<Rightarrow> bool" where
  "is_letter c \<longleftrightarrow> (97 \<le> c \<and> c \<le> 122) \<or> (65 \<le> c \<and> c \<le> 90)"

definition is_whitespace :: "code_point \<Rightarrow> bool" where
  "is_whitespace c \<longleftrightarrow>
     (9 \<le> c \<and> c \<le> 13) \<or> (28 \<le> c \<and> c \<le> 32) \<or> c = 133 \<or> c = 160 \<or> c = 5760 \<or>
     (8192 \<le> c \<and> c \<le> 8202) \<or> c = 8232 \<or> c = 8233 \<or> c = 8239 \<or> c = 8287 \<or> c = 12288"

text \<open>\<open>re.sub(r'[-_]', ' ', recipeName)\<close>\<close>

definition hyphens_to_spaces :: "pystr \<Rightarrow> pystr" where
  "hyphens_to_spaces s = map (\<lambda>c. if c = 45 \<or> c = 95 then 32 else c) s"

text \<open>\<open>re.sub(r'[^a-zA-Z\s]', '', recipeName)\<close>\<close>

definition letters_and_spaces :: "pystr \<Rightarrow> pystr" where
  "letters_and_spaces s = filter (\<lambda>c. is_letter c \<or> is_whitespace c) s"

text \<open>
  \<open>str.title\<close> walks the string with the flag \<open>previous_is_cased\<close>: a cased character
  after a cased one is lowered, any other character is put in title case, and the flag
  becomes whether the character is cased. The string it is applied to holds letters of
  \<open>[a-zA-Z]\<close> and whitespace only, so the case mappings are those of ASCII and the cased
  characters are the letters.
\<close>

definition to_upper :: "code_point \<Rightarrow> code_point" where
  "to_upper c = (if 97 \<le> c \<and> c \<le> 122 then c - 32 else c)"

definition to_lower :: "code_point \<Rightarrow> code_point" where
  "to_lower c = (if 65 \<le> c \<and> c \<le> 90 then c + 32 else c)"

fun title_from :: "bool \<Rightarrow> pystr \<Rightarrow> pystr" where
  "title_from previous_is_cased [] = []"
| "title_from previous_is_cased (c # cs) =
     (let c' = (if previous_is_cased then to_lower c else to_upper c)
      in c' # title_from (is_letter c') cs)"

definition title :: "pystr \<Rightarrow> pystr" where
  "title s = title_from False s"

text \<open>\<open>re.sub(r'\s+', ' ', recipeName)\<close>: every maximal run of whitespace becomes one space.\<close>

function collapse_whitespace :: "pystr \<Rightarrow> pystr" where
  "collapse_whitespace [] = []"
| "collapse_whitespace (c # cs) =
     (if is_whitespace c then 32 # collapse_whitespace (dropWhile is_whitespace cs)
      else c # collapse_whitespace cs)"
  by pat_completeness auto
termination
  by (relation "measure length") (auto simp: length_dropWhile_le less_Suc_eq_le)

definition strip :: "pystr \<Rightarrow> pystr" where
  "strip s = rev (dropWhile is_whitespace (rev (dropWhile is_whitespace s)))"

definition parse_handwriting :: "pystr \<Rightarrow> pystr option" where
  "parse_handwriting recipeName =
     (let recipeName1 = hyphens_to_spaces recipeName;
          recipeName2 = letters_and_spaces recipeName1;
          recipeName3 = title recipeName2;
          recipeName4 = collapse_whitespace recipeName3;
          recipeName5 = strip recipeName4
      in if length recipeName5 = 0 then None else Some recipeName5)"

text \<open>
  The cleaned name as the specification words it, read off the input alone. Whitespace,
  hyphens and underscores separate words; a letter joins the word being read; every
  other character is dropped; a word with no letter does not count. \<open>words_from w s\<close>
  reads \<open>s\<close> with the word \<open>w\<close> in progress. Each word is written with its first letter
  in upper case and the others in lower case, and the words are joined by single spaces;
  there is no cleaned name when there is no word.
\<close>

definition is_separator :: "code_point \<Rightarrow> bool" where
  "is_separator c \<longleftrightarrow> is_whitespace c \<or> c = 45 \<or> c = 95"

fun words_from :: "pystr \<Rightarrow> pystr \<Rightarrow> pystr list" where
  "words_from w [] = (if w = [] then [] else [w])"
| "words_from w (c # cs) =
     (if is_separator c then (if w = [] then [] else [w]) @ words_from [] cs
      else if is_letter c then words_from (w @ [c]) cs
      else words_from w cs)"

definition name_words :: "pystr \<Rightarrow> pystr list" where
  "name_words s = words_from [] s"

fun capitalize :: "pystr \<Rightarrow> pystr" where
  "capitalize [] = []"
| "capitalize (c # cs) = to_upper c # map to_lower cs"

fun join_words :: "pystr list \<Rightarrow> pystr" where
  "join_words [] = []"
| "join_words [w] = w"
| "join_words (w # ws) = w @ 32 # join_words ws"

definition cleaned_name :: "pystr \<Rightarrow> pystr option" where
  "cleaned_name s =
     (if name_words s = [] then None else Some (join_words (map capitalize (name_words s))))"

text \<open>
  Properties of a cleaned name: \<open>single_spaces\<close> holds when no two neighbours are both
  spaces; \<open>word_starts_upper True\<close> holds when every character that is not a space and
  stands first or right after a space is an upper-case letter (the flag says whether the
  next character starts a word).
\<close>

definition is_upper :: "code_point \<Rightarrow> bool" where
  "is_upper c \<longleftrightarrow> 65 \<le> c \<and> c \<le> 90"

definition is_lower :: "code_point \<Rightarrow> bool" where
  "is_lower c \<longleftrightarrow> 97 \<le> c \<and> c \<le> 122"

fun single_spaces :: "pystr \<Rightarrow> bool" where
  "single_spaces (c # d # cs) = (\<not> (c = 32 \<and> d = 32) \<and> single_spaces (d # cs))"
| "single_spaces cs = True"

fun word_starts_upper :: "bool \<Rightarrow> pystr \<Rightarrow> bool" where
  "word_starts_upper at_start [] = True"
| "word_starts_upper at_start (c # cs) =
     ((at_start \<and> c \<noteq> 32 \<longrightarrow> is_upper c) \<and> word_starts_upper (c = 32) cs)"

text \<open>
  What \<open>str.title\<close> establishes, with the flag of \<open>title_from\<close>: a letter after a
  letter is lower case, any other letter is upper case.
\<close>

fun titled :: "bool \<Rightarrow> pystr \<Rightarrow> bool" where
  "titled prev [] = True"
| "titled prev (c # cs) =
     ((is_letter c \<longrightarrow> (if prev then is_lower c else is_upper c)) \<and> titled (is_letter c) cs)"

section \<open>Notions for the analysis of the summary\<close>

text \<open>
  \<open>quantity_of\<close>: the quantity a dictionary holds for a name, 0 when the name is not a
  key. \<open>required_quantity\<close>: the quantity a list of required items asks of a name, summed
  over every item of that name.
\<close>

definition quantity_of :: "ingredient_dict \<Rightarrow> string \<Rightarrow> int" where
  "quantity_of ing n = (case map_of ing n of None \<Rightarrow> 0 | Some i \<Rightarrow> quantity i)"

definition cook_time_of :: "ingredient_dict \<Rightarrow> string \<Rightarrow> int" where
  "cook_time_of ing n = (case map_of ing n of None \<Rightarrow> 0 | Some i \<Rightarrow> unit_cook_time i)"

definition required_quantity :: "RequiredItem list \<Rightarrow> string \<Rightarrow> int" where
  "required_quantity items n =
     sum_list (map item_quantity (filter (\<lambda>i. item_name i = n) items))"

text \<open>The entry types of the cookbook, read through \<open>look_for_item\<close>.\<close>

definition is_recipe :: "cookbook \<Rightarrow> string \<Rightarrow> bool" where
  "is_recipe cb n =
     (case look_for_item n cb of None \<Rightarrow> False | Some item \<Rightarrow> etype item = ''recipe'')"

definition is_ingredient :: "cookbook \<Rightarrow> string \<Rightarrow> bool" where
  "is_ingredient cb n =
     (case look_for_item n cb of None \<Rightarrow> False | Some item \<Rightarrow> etype item = ''ingredient'')"

definition catalog_cook_time :: "cookbook \<Rightarrow> string \<Rightarrow> int" where
  "catalog_cook_time cb n =
     (case look_for_item n cb of None \<Rightarrow> 0 | Some item \<Rightarrow> cookTime item)"

text \<open>
  The invariant of the loop of \<open>summary\<close>: the keys of the dictionary are distinct; a
  queued name is a key of the dictionary unless it is a recipe; and a key that is not
  queued names an entry of the cookbook that is not a recipe, with the cook time of the
  cookbook recorded when that entry is an ingredient.
\<close>

definition loop_inv :: "cookbook \<Rightarrow> string list \<Rightarrow> ingredient_dict \<Rightarrow> bool" where
  "loop_inv cb q ing \<longleftrightarrow>
     distinct (map fst ing) \<and>
     (\<forall>n \<in> set q. map_of ing n \<noteq> None \<or> is_recipe cb n) \<and>
     (\<forall>n i. map_of ing n = Some i \<longrightarrow>
        n \<in> set q \<or>
        (\<not> is_recipe cb n \<and> look_for_item n cb \<noteq> None \<and>
         (is_ingredient cb n \<longrightarrow> unit_cook_time i = catalog_cook_time cb n)))"

text \<open>Every quantity that a recipe of the cookbook requires is positive.\<close>

definition positive_quantities :: "cookbook \<Rightarrow> bool" where
  "positive_quantities cb =
     list_all (\<lambda>e. etype e = ''recipe'' \<longrightarrow>
                 list_all (\<lambda>i. 0 < item_quantity i) (requiredItems e)) cb"

text \<open>
  A name is \<open>satisfied\<close> by a dictionary when its demand is on record or has been handed
  down: either the dictionary holds a positive quantity for it, or it is a recipe all of
  whose required names are satisfied. \<open>positive_inv\<close> is the invariant of the loop built
  on it: no quantity of the dictionary is negative, and every queued name and every key
  is satisfied.
\<close>

inductive satisfied :: "cookbook \<Rightarrow> ingredient_dict \<Rightarrow> string \<Rightarrow> bool"
  for cb :: cookbook and ing :: ingredient_dict where
  pending: "0 < quantity_of ing n \<Longrightarrow> satisfied cb ing n"
| expanded: "look_for_item n cb = Some item \<Longrightarrow> etype item = ''recipe'' \<Longrightarrow>
     (\<forall>c \<in> item_name ` set (requiredItems item). satisfied cb ing c) \<Longrightarrow> satisfied cb ing n"

definition positive_inv :: "cookbook \<Rightarrow> string list \<Rightarrow> ingredient_dict \<Rightarrow> bool" where
  "positive_inv cb q ing \<longleftrightarrow>
     (\<forall>n. 0 \<le> quantity_of ing n) \<and>
     (\<forall>n \<in> set q. satisfied cb ing n) \<and>
     (\<forall>n. map_of ing n \<noteq> None \<longrightarrow> satisfied cb ing n)"

text \<open>
  \<open>reaches_missing cb n\<close>: starting at the name \<open>n\<close> and following the required items of
  recipes, one arrives at a name that the cookbook does not hold. \<open>missing_within cb d n\<close>
  bounds the number of steps by \<open>d\<close>.
\<close>

inductive reaches_missing :: "cookbook \<Rightarrow> string \<Rightarrow> bool" for cb :: cookbook where
  absent: "look_for_item n cb = None \<Longrightarrow> reaches_missing cb n"
| through: "look_for_item n cb = Some item \<Longrightarrow> etype item = ''recipe'' \<Longrightarrow>
     c \<in> item_name ` set (requiredItems item) \<Longrightarrow> reaches_missing cb c \<Longrightarrow>
     reaches_missing cb n"

fun missing_within :: "cookbook \<Rightarrow> nat \<Rightarrow> string \<Rightarrow> bool" where
  "missing_within cb 0 n = (look_for_item n cb = None)"
| "missing_within cb (Suc d) n =
     (case look_for_item n cb of
        None \<Rightarrow> True
      | Some item \<Rightarrow>
          etype item = ''recipe'' \<and>
          list_ex (\<lambda>i. missing_within cb d (item_name i)) (requiredItems item))"

text \<open>
  The meaning of a recipe, independent of the order in which the loop visits names.
  \<open>expansion cb n f k\<close>: unfolding one unit of the name \<open>n\<close> down to entries that are not
  recipes asks for \<open>f m\<close> units of each such entry \<open>m\<close>, and visits \<open>k\<close> names on the way
  (a name counts once for every path that leads to it). It is defined only where the
  unfolding ends: every name on the way is in the cookbook and no recipe requires itself,
  directly or through others.
\<close>

inductive expansion :: "cookbook \<Rightarrow> string \<Rightarrow> (string \<Rightarrow> int) \<Rightarrow> nat \<Rightarrow> bool"
  for cb :: cookbook where
  leaf: "look_for_item n cb = Some item \<Longrightarrow> etype item \<noteq> ''recipe'' \<Longrightarrow>
     expansion cb n (\<lambda>m. if m = n then 1 else 0) 1"
| node: "look_for_item n cb = Some item \<Longrightarrow> etype item = ''recipe'' \<Longrightarrow>
     (\<forall>i \<in> set (requiredItems item). expansion cb (item_name i) (F (item_name i)) (K (item_name i))) \<Longrightarrow>
     expansion cb n
       (\<lambda>m. sum_list (map (\<lambda>i. item_quantity i * F (item_name i) m) (requiredItems item)))
       (Suc (sum_list (map (\<lambda>i. K (item_name i)) (requiredItems item))))"

text \<open>
  \<open>reaches cb n m\<close>: the name \<open>m\<close> is \<open>n\<close> or is required, directly or through other
  recipes, by the recipe \<open>n\<close>. \<open>leaves cb n\<close>: the names reached from \<open>n\<close> that are not
  recipes.
\<close>

inductive reaches :: "cookbook \<Rightarrow> string \<Rightarrow> string \<Rightarrow> bool" for cb :: cookbook where
  here: "reaches cb n n"
| below: "look_for_item n cb = Some item \<Longrightarrow> etype item = ''recipe'' \<Longrightarrow>
     c \<in> item_name ` set (requiredItems item) \<Longrightarrow> reaches cb c m \<Longrightarrow> reaches cb n m"

definition leaves :: "cookbook \<Rightarrow> string \<Rightarrow> string set" where
  "leaves cb n = {m. reaches cb n m \<and> \<not> is_recipe cb m}"

text \<open>
  The demand on record in a dictionary, weighted by \<open>W\<close>: the sum over the keys \<open>n\<close> of
  the quantity of \<open>n\<close> times \<open>W n m\<close>.
\<close>

definition potential :: "(string \<Rightarrow> string \<Rightarrow> int) \<Rightarrow> ingredient_dict \<Rightarrow> string \<Rightarrow> int" where
  "potential W ing m = (\<Sum>n \<in> fst ` set ing. quantity_of ing n * W n m)"

text \<open>
  Two cookbooks that differ only in the order of the required items of their recipes: the
  entries correspond one to one, with the same type, name and cook time and the same
  multiset of required items.
\<close>

definition reordered :: "cookbook \<Rightarrow> cookbook \<Rightarrow> bool" where
  "reordered cb cb' =
     list_all2 (\<lambda>e e'. etype e = etype e' \<and> name e = name e' \<and> cookTime e = cookTime e' \<and>
                        mset (requiredItems e) = mset (requiredItems e')) cb cb'"

text \<open>
  The invariant of the loop that ties the dictionary to the expansion of the root: on top
  of \<open>loop_inv\<close>, every queued name has an expansion, the potential of the dictionary
  is the demand \<open>D\<close> of the root, the leaves below the keys and the queued names are the
  leaves \<open>L\<close> below the root, and an entry that is not an ingredient keeps the unit cook
  time 0 it was created with.
\<close>

definition demand_inv ::
  "cookbook \<Rightarrow> (string \<Rightarrow> string \<Rightarrow> int) \<Rightarrow> (string \<Rightarrow> int) \<Rightarrow> string set \<Rightarrow>
   string list \<Rightarrow> ingredient_dict \<Rightarrow> bool" where
  "demand_inv cb W D L q ing \<longleftrightarrow>
     loop_inv cb q ing \<and>
     (\<forall>n \<in> set q. \<exists>f k. expansion cb n f k) \<and>
     (\<forall>m. potential W ing m = D m) \<and>
     (\<Union>n \<in> fst ` set ing \<union> set q. leaves cb n) = L \<and>
     (\<forall>n i. map_of ing n = Some i \<longrightarrow> \<not> is_ingredient cb n \<longrightarrow> unit_cook_time i = 0)"

text \<open>
  The cook time that counts for a name: the cook time of the cookbook for an ingredient,
  0 for any other name.
\<close>

definition effective_cook_time :: "cookbook \<Rightarrow> string \<Rightarrow> int" where
  "effective_cook_time cb n = (if is_ingredient cb n then catalog_cook_time cb n else 0)"

section \<open>Summaries of concrete cookbooks\<close>

lemmas summary_eval =
  summary_def Recipe_def Ingredient_def summary_loop.simps process_item_def
  expand_recipe_def record_cook_time_def dict_pop_def total_cooktime_def ingredients_list_def

text \<open>
  Claim C1. In the cookbook with the recipe Cake requiring 1 Flour and 1 Dough, the recipe
  Dough requiring 2 Flour and the ingredient Flour of cook time 1, the summary of Cake
  succeeds with the single ingredient Flour at quantity 3 and cook time 3. The demand for
  a leaf that is reached along two paths is the sum, over the paths, of the products of
  the quantities along each path: with quantities \<open>a\<close>, \<open>b\<close>, \<open>c\<close> and unit cook time
  \<open>t\<close> in place of 1, 1, 2 and 1 the quantity is \<open>a + b * c\<close>.
\<close>

theorem summary_shared_leaf_accumulates:
  "summary [Recipe ''Cake'' [(''Flour'', 1), (''Dough'', 1)],
            Recipe ''Dough'' [(''Flour'', 2)],
            Ingredient ''Flour'' 1] ''Cake''
     = Some (Inr \<lparr>summary_name = ''Cake'', summary_cookTime = 3,
                     summary_ingredients = [(''Flour'', 3)]\<rparr>)
   \<and> summary [Recipe ''Cake'' [(''Flour'', a), (''Dough'', b)],
              Recipe ''Dough'' [(''Flour'', c)],
              Ingredient ''Flour'' t] ''Cake''
     = Some (Inr \<lparr>summary_name = ''Cake'', summary_cookTime = (a + b * c) * t,
                     summary_ingredients = [(''Flour'', a + b * c)]\<rparr>)"
  by (simp add: summary_eval)

section \<open>The loop of the summary\<close>

lemmas summary_loop_induct =
  summary_loop.raw_induct [rotated 1, consumes 1, case_names step]

lemma fst_add_required_items:
  "fst (add_required_items pq items queue ing) = queue @ map item_name items"
  by (induction items arbitrary: queue ing) auto

lemma process_item_recipe:
  "etype item = ''recipe'' \<Longrightarrow>
   \<exists>ing'. process_item item rest ing = Inr (rest @ map item_name (requiredItems item), ing')"
  by (auto simp: process_item_def expand_recipe_def record_cook_time_def dict_pop_def Let_def
      split_beta prod_eq_iff fst_add_required_items)

subsection \<open>A cookbook with a cycle\<close>

lemma cyclic_loop_never_returns:
  assumes "summary_loop cb q ing = Some y"
  shows "\<not> (cb = [Recipe ''A'' [(''B'', 1)], Recipe ''B'' [(''A'', 1)]] \<and>
            (q = [''A''] \<or> q = [''B'']))"
  using assms
proof (induction rule: summary_loop_induct)
  case (step loop cb q ing y)
  show ?case
  proof
    assume a: "cb = [Recipe ''A'' [(''B'', 1)], Recipe ''B'' [(''A'', 1)]] \<and>
               (q = [''A''] \<or> q = [''B''])"
    then have "q = [''A''] \<or> q = [''B'']" by simp
    then show False
    proof
      assume q: "q = [''A'']"
      obtain ing' where "process_item (Recipe ''A'' [(''B'', 1)]) [] ing = Inr ([''B''], ing')"
        using process_item_recipe [of "Recipe ''A'' [(''B'', 1)]" "[]" ing]
        by (auto simp: Recipe_def)
      with step(2) a q have "loop cb [''B''] ing' = Some y"
        by (simp add: Recipe_def)
      from step(1) [OF this] a show False by simp
    next
      assume q: "q = [''B'']"
      obtain ing' where "process_item (Recipe ''B'' [(''A'', 1)]) [] ing = Inr ([''A''], ing')"
        using process_item_recipe [of "Recipe ''B'' [(''A'', 1)]" "[]" ing]
        by (auto simp: Recipe_def)
      with step(2) a q have "loop cb [''A''] ing' = Some y"
        by (simp add: Recipe_def)
      from step(1) [OF this] a show False by simp
    qed
  qed
qed

text \<open>
  Claim C4 says that on a cookbook with a cycle reachable from the root, such as the recipe
  A requiring B and the recipe B requiring A, the summary returns a CyclicComposition error
  within a bounded number of steps. The code has no such error and no guard: on this
  cookbook the loop of \<open>summary\<close> dequeues A, enqueues B, dequeues B, enqueues A, and so
  on, and the call never returns.
\<close>

theorem summary_cycle_never_returns:
  "summary [Recipe ''A'' [(''B'', 1)], Recipe ''B'' [(''A'', 1)]] ''A'' = None"
proof -
  have "summary_loop [Recipe ''A'' [(''B'', 1)], Recipe ''B'' [(''A'', 1)]] [''A''] ing = None"
    for ing
    using cyclic_loop_never_returns [of "[Recipe ''A'' [(''B'', 1)], Recipe ''B'' [(''A'', 1)]]"
        "[''A'']" ing]
    by (cases "summary_loop [Recipe ''A'' [(''B'', 1)], Recipe ''B'' [(''A'', 1)]] [''A''] ing")
      auto
  then show ?thesis
    by (simp add: summary_def Recipe_def)
qed

section \<open>The root of a summary\<close>

text \<open>
  Claim C5 says that a root name which does not resolve to a recipe fails with NotFound
  when the cookbook has no entry of that name and with NotARecipe when the entry is an
  ingredient, two distinguishable errors. The code has one guard for both cases
  (\<open>target is None or target['type'] != 'recipe'\<close>) and one response. For the ingredient
  Flour and the absent name Sugar the responses are the same.
\<close>

theorem summary_root_errors_not_distinct:
  "look_for_item ''Sugar'' [Ingredient ''Flour'' 1] = None \<and>
   look_for_item ''Flour'' [Ingredient ''Flour'' 1] = Some (Ingredient ''Flour'' 1) \<and>
   summary [Ingredient ''Flour'' 1] ''Sugar'' = summary [Ingredient ''Flour'' 1] ''Flour''"
  by (simp add: Ingredient_def summary_def)

text \<open>
  Claim C5, amended: a root name that does not resolve to a recipe fails, and the failure
  is the response \<open>Recipe not found\<close> with status 400 both when the cookbook has no entry
  of that name and when the entry is not a recipe.
\<close>

theorem summary_root_not_recipe:
  "look_for_item nm cookbook = None \<or>
   (\<exists>target. look_for_item nm cookbook = Some target \<and> etype target \<noteq> ''recipe'')
   \<Longrightarrow> summary cookbook nm = Some (Inl (BadRequest ''Recipe not found''))"
  by (auto simp: summary_def)

theorem summary_root_not_recipe_witness:
  "look_for_item ''Flour'' [Ingredient ''Flour'' 1] = Some (Ingredient ''Flour'' 1) \<and>
   etype (Ingredient ''Flour'' 1) \<noteq> ''recipe'' \<and>
   summary [Ingredient ''Flour'' 1] ''Flour'' = Some (Inl (BadRequest ''Recipe not found''))"
  using summary_root_not_recipe [of "''Flour''" "[Ingredient ''Flour'' 1]"]
  by (simp add: Ingredient_def)

section \<open>Writing to the cookbook\<close>

lemma card_names_distinct:
  "(card (f ` set xs) \<noteq> length xs) = (\<not> distinct (map f xs))"
  using card_distinct [of "map f xs"] distinct_card [of "map f xs"] by auto

lemma create_entry_rejects:
  "fails_validation cb d \<Longrightarrow> \<exists>msg. create_entry cb d = (Inl (BadRequest msg), cb)"
  by (auto simp: fails_validation_def create_entry_def Let_def list_ex_iff card_names_distinct)

lemma create_entry_accepts:
  "\<not> fails_validation cb d \<Longrightarrow> create_entry cb d = (Inr (), cb @ [d])"
  by (auto simp: fails_validation_def create_entry_def Let_def list_ex_iff card_names_distinct
      store_cookbook_def)

lemma create_entry_valid_types:
  "valid_types cb \<Longrightarrow> valid_types (snd (create_entry cb d))"
proof (cases "fails_validation cb d")
  case True
  assume "valid_types cb"
  with create_entry_rejects [OF True] show ?thesis by auto
next
  case False
  assume "valid_types cb"
  with False show ?thesis
    by (auto simp: create_entry_accepts valid_types_def fails_validation_def)
qed

text \<open>
  Claim C8. \<open>create_entry\<close> keeps the invariants of the stored cookbook. On a cookbook
  that satisfies them, a request is answered with status 400 and the cookbook stays as it
  is whenever the name is already in the cookbook, the type is neither \<open>recipe\<close> nor
  \<open>ingredient\<close>, the entry is an ingredient with a negative cook time, or it is a recipe
  that names a required item twice. After any call the names of the entries are unique,
  the required items of every recipe are free of duplicate names, and the cook time of
  every ingredient is non-negative.
\<close>

theorem create_entry_preserves_invariants:
  assumes "catalog_invariants cb"
  shows "(fails_validation cb d \<longrightarrow> (\<exists>msg. create_entry cb d = (Inl (BadRequest msg), cb))) \<and>
         catalog_invariants (snd (create_entry cb d))"
proof (cases "fails_validation cb d")
  case True
  with create_entry_rejects [OF True] assms show ?thesis by auto
next
  case False
  with assms have "catalog_invariants (cb @ [d])"
    by (auto simp: catalog_invariants_def fails_validation_def unique_entry_names_def
        unique_required_names_def nonnegative_cook_times_def list_ex_iff)
  with False show ?thesis
    by (simp add: create_entry_accepts)
qed

theorem create_entry_preserves_invariants_witness:
  "catalog_invariants [Ingredient ''Flour'' 1] \<and>
   fails_validation [Ingredient ''Flour'' 1] (Recipe ''Flour'' [(''Egg'', 1)]) \<and>
   create_entry [Ingredient ''Flour'' 1] (Recipe ''Flour'' [(''Egg'', 1)])
     = (Inl (BadRequest ''Name already exists''), [Ingredient ''Flour'' 1]) \<and>
   catalog_invariants
     (snd (create_entry [Ingredient ''Flour'' 1] (Recipe ''Cake'' [(''Flour'', 2)]))) \<and>
   snd (create_entry [Ingredient ''Flour'' 1] (Recipe ''Cake'' [(''Flour'', 2)]))
     = [Ingredient ''Flour'' 1, Recipe ''Cake'' [(''Flour'', 2)]]"
proof -
  have inv: "catalog_invariants [Ingredient ''Flour'' 1]"
    by (simp add: catalog_invariants_def unique_entry_names_def unique_required_names_def
        nonnegative_cook_times_def Ingredient_def)
  have "fails_validation [Ingredient ''Flour'' 1] (Recipe ''Flour'' [(''Egg'', 1)])"
    by (simp add: fails_validation_def Ingredient_def Recipe_def)
  moreover have "create_entry [Ingredient ''Flour'' 1] (Recipe ''Flour'' [(''Egg'', 1)])
     = (Inl (BadRequest ''Name already exists''), [Ingredient ''Flour'' 1])"
    by (simp add: create_entry_def Ingredient_def Recipe_def)
  moreover have "snd (create_entry [Ingredient ''Flour'' 1] (Recipe ''Cake'' [(''Flour'', 2)]))
     = [Ingredient ''Flour'' 1, Recipe ''Cake'' [(''Flour'', 2)]]"
    by (simp add: create_entry_def Ingredient_def Recipe_def store_cookbook_def)
  ultimately show ?thesis
    using inv create_entry_preserves_invariants [OF inv, of "Recipe ''Cake'' [(''Flour'', 2)]"]
    by simp
qed

text \<open>
  Claim C9. \<open>create_entry\<close> is atomic on failure: a request that fails a check (invalid
  type, negative cook time of an ingredient, name already present, duplicate names among
  the required items) is answered with an error and nothing is appended to the stored
  cookbook; the cookbook is written, by one append of the request, only when every check
  passes; and whenever the response is an error the stored cookbook is unchanged.
\<close>

theorem create_entry_atomic_on_failure:
  "(fails_validation cb d \<longrightarrow> (\<exists>msg. create_entry cb d = (Inl (BadRequest msg), cb))) \<and>
   (\<not> fails_validation cb d \<longrightarrow> create_entry cb d = (Inr (), store_cookbook d cb)) \<and>
   (\<forall>e. fst (create_entry cb d) = Inl e \<longrightarrow> snd (create_entry cb d) = cb)"
proof (cases "fails_validation cb d")
  case True
  with create_entry_rejects [OF True] show ?thesis by auto
next
  case False
  then show ?thesis
    by (simp add: create_entry_accepts store_cookbook_def)
qed

theorem create_entry_atomic_on_failure_witness:
  "fails_validation [] (Recipe ''Cake'' [(''Egg'', 1), (''Egg'', 2)]) \<and>
   create_entry [] (Recipe ''Cake'' [(''Egg'', 1), (''Egg'', 2)])
     = (Inl (BadRequest ''Required items must have unique names''), []) \<and>
   fails_validation [] (Ingredient ''Egg'' (- 1)) \<and>
   create_entry [] (Ingredient ''Egg'' (- 1)) = (Inl (BadRequest ''Invalid cookTime''), []) \<and>
   \<not> fails_validation [] (Ingredient ''Egg'' 1) \<and>
   create_entry [] (Ingredient ''Egg'' 1) = (Inr (), [Ingredient ''Egg'' 1])"
proof -
  have a: "fails_validation [] (Recipe ''Cake'' [(''Egg'', 1), (''Egg'', 2)])"
    by (simp add: fails_validation_def Recipe_def)
  have b: "fails_validation [] (Ingredient ''Egg'' (- 1))"
    by (simp add: fails_validation_def Ingredient_def)
  have c: "\<not> fails_validation [] (Ingredient ''Egg'' 1)"
    by (simp add: fails_validation_def Ingredient_def)
  have a': "create_entry [] (Recipe ''Cake'' [(''Egg'', 1), (''Egg'', 2)])
     = (Inl (BadRequest ''Required items must have unique names''), [])"
    by (simp add: create_entry_def Recipe_def)
  have b': "create_entry [] (Ingredient ''Egg'' (- 1)) = (Inl (BadRequest ''Invalid cookTime''), [])"
    by (simp add: create_entry_def Ingredient_def)
  from a b c a' b' show ?thesis
    using create_entry_atomic_on_failure [of "[]" "Ingredient ''Egg'' 1"]
    by (simp add: store_cookbook_def)
qed

section \<open>Cleaning a handwritten name\<close>

lemma letter_not_whitespace: "is_letter c \<Longrightarrow> \<not> is_whitespace c"
  by (auto simp: is_letter_def is_whitespace_def)

lemma space_is_whitespace: "is_whitespace (32)"
  by (simp add: is_whitespace_def)

lemma space_not_letter: "\<not> is_letter (32)"
  by (simp add: is_letter_def)

lemma is_letter_to_upper: "is_letter (to_upper c) = is_letter c"
  by (auto simp: is_letter_def to_upper_def)

lemma is_letter_to_lower: "is_letter (to_lower c) = is_letter c"
  by (auto simp: is_letter_def to_lower_def)

lemma to_upper_other: "\<not> is_letter c \<Longrightarrow> to_upper c = c"
  by (auto simp: is_letter_def to_upper_def)

lemma to_lower_other: "\<not> is_letter c \<Longrightarrow> to_lower c = c"
  by (auto simp: is_letter_def to_lower_def)

lemma is_upper_to_upper: "is_letter c \<Longrightarrow> is_upper (to_upper c)"
  by (auto simp: is_letter_def is_upper_def to_upper_def)

lemma is_lower_to_lower: "is_letter c \<Longrightarrow> is_lower (to_lower c)"
  by (auto simp: is_letter_def is_lower_def to_lower_def)

lemma to_lower_to_upper: "to_lower (to_upper c) = to_lower c"
  by (auto simp: to_lower_def to_upper_def)

lemma to_lower_to_lower: "to_lower (to_lower c) = to_lower c"
  by (auto simp: to_lower_def)

lemma whitespace_not_letter: "is_whitespace c \<Longrightarrow> is_letter c = False"
  using letter_not_whitespace by blast

lemma to_upper_whitespace: "is_whitespace c \<Longrightarrow> to_upper c = c"
  by (simp add: to_upper_other whitespace_not_letter)

lemma to_lower_whitespace: "is_whitespace c \<Longrightarrow> to_lower c = c"
  by (simp add: to_lower_other whitespace_not_letter)

lemma all_dropWhile: "(\<forall>x \<in> set (dropWhile P s). P x) \<longleftrightarrow> (\<forall>x \<in> set s. P x)"
proof
  assume a: "\<forall>x \<in> set (dropWhile P s). P x"
  have "dropWhile P s = []"
  proof (rule ccontr)
    assume ne: "dropWhile P s \<noteq> []"
    then have "\<not> P (hd (dropWhile P s))" by (rule hd_dropWhile)
    moreover from ne have "hd (dropWhile P s) \<in> set (dropWhile P s)" by simp
    ultimately show False using a by blast
  qed
  then show "\<forall>x \<in> set s. P x" by simp
next
  assume "\<forall>x \<in> set s. P x"
  then show "\<forall>x \<in> set (dropWhile P s). P x" by (auto dest: set_dropWhileD)
qed

lemma filter_letters_cleaned:
  "filter is_letter (letters_and_spaces (hyphens_to_spaces s)) = filter is_letter s"
  by (induction s) (auto simp: letters_and_spaces_def hyphens_to_spaces_def is_letter_def)

lemma cleaned_chars:
  "c \<in> set (letters_and_spaces s) \<Longrightarrow> is_letter c \<or> is_whitespace c"
  by (auto simp: letters_and_spaces_def)

lemma title_from_letters:
  "map to_lower (filter is_letter (title_from b s)) = map to_lower (filter is_letter s)"
  by (induction s arbitrary: b)
    (auto simp: Let_def is_letter_to_upper is_letter_to_lower to_lower_to_upper to_lower_to_lower)

lemma title_from_chars:
  "\<forall>c \<in> set s. is_letter c \<or> is_whitespace c \<Longrightarrow>
   \<forall>c \<in> set (title_from b s). is_letter c \<or> is_whitespace c"
  by (induction s arbitrary: b)
    (auto simp: Let_def is_letter_to_upper is_letter_to_lower to_upper_whitespace to_lower_whitespace)

lemma titled_title_from: "titled b (title_from b s)"
  by (induction s arbitrary: b)
    (auto simp: Let_def is_letter_to_upper is_letter_to_lower is_upper_to_upper is_lower_to_lower)

lemma titled_dropWhile: "titled False s \<Longrightarrow> titled False (dropWhile is_whitespace s)"
  by (induction s) (auto simp: whitespace_not_letter)

lemma titled_collapse: "titled b s \<Longrightarrow> titled b (collapse_whitespace s)"
proof (induction s arbitrary: b rule: collapse_whitespace.induct)
  case 1
  then show ?case by simp
next
  case (2 c cs)
  show ?case
  proof (cases "is_whitespace c")
    case True
    then have nl: "\<not> is_letter c" using letter_not_whitespace by blast
    with "2.prems" have "titled False cs" by simp
    then have "titled False (dropWhile is_whitespace cs)" by (rule titled_dropWhile)
    with "2.IH"(1) True have "titled False (collapse_whitespace (dropWhile is_whitespace cs))" by simp
    with True show ?thesis by (simp add: space_not_letter)
  next
    case False
    with "2.prems" "2.IH"(2) show ?thesis by simp
  qed
qed

lemma titled_prefix: "titled b (xs @ ys) \<Longrightarrow> titled b xs"
  by (induction xs arbitrary: b) auto

lemma collapse_chars:
  "\<forall>c \<in> set s. is_letter c \<or> is_whitespace c \<Longrightarrow>
   \<forall>c \<in> set (collapse_whitespace s). is_letter c \<or> c = 32"
proof (induction s rule: collapse_whitespace.induct)
  case 1
  then show ?case by simp
next
  case (2 c cs)
  show ?case
  proof (cases "is_whitespace c")
    case True
    have "\<forall>c \<in> set (dropWhile is_whitespace cs). is_letter c \<or> is_whitespace c"
      using "2.prems" by (auto dest: set_dropWhileD)
    with "2.IH"(1) True show ?thesis by simp
  next
    case False
    with "2.prems" "2.IH"(2) show ?thesis by auto
  qed
qed

lemma collapse_filter:
  "filter (\<lambda>c. \<not> is_whitespace c) (collapse_whitespace s) = filter (\<lambda>c. \<not> is_whitespace c) s"
proof (induction s rule: collapse_whitespace.induct)
  case 1
  then show ?case by simp
next
  case (2 c cs)
  have "filter (\<lambda>c. \<not> is_whitespace c) (dropWhile is_whitespace cs) = filter (\<lambda>c. \<not> is_whitespace c) cs"
    by (induction cs) auto
  with 2 show ?case by (simp add: space_is_whitespace)
qed

lemma collapse_head:
  "s = [] \<or> \<not> is_whitespace (hd s) \<Longrightarrow>
   collapse_whitespace s = [] \<or> hd (collapse_whitespace s) \<noteq> 32"
  by (cases s) (auto simp: space_is_whitespace)

lemma single_spaces_collapse: "single_spaces (collapse_whitespace s)"
proof (induction s rule: collapse_whitespace.induct)
  case 1
  then show ?case by simp
next
  case (2 c cs)
  show ?case
  proof (cases "is_whitespace c")
    case True
    have "dropWhile is_whitespace cs = [] \<or> \<not> is_whitespace (hd (dropWhile is_whitespace cs))"
      using hd_dropWhile[of is_whitespace cs] by blast
    from collapse_head[OF this] "2.IH"(1)[OF True] True show ?thesis
      by (cases "collapse_whitespace (dropWhile is_whitespace cs)") auto
  next
    case False
    with "2.IH"(2) show ?thesis
      by (cases "collapse_whitespace cs") (auto simp: space_is_whitespace)
  qed
qed

lemma single_spaces_prefix: "single_spaces (xs @ ys) \<Longrightarrow> single_spaces xs"
  by (induction xs rule: single_spaces.induct) auto

lemma single_spaces_dropWhile: "single_spaces xs \<Longrightarrow> single_spaces (dropWhile P xs)"
  by (induction xs rule: single_spaces.induct) auto

lemma strip_prefix: "\<exists>ys. dropWhile is_whitespace s = strip s @ ys"
  unfolding strip_def
  by (metis rev_append rev_rev_ident takeWhile_dropWhile_id)

lemma strip_empty: "strip s = [] \<longleftrightarrow> (\<forall>c \<in> set s. is_whitespace c)"
  by (simp add: strip_def all_dropWhile)

lemma strip_hd: "strip s \<noteq> [] \<Longrightarrow> \<not> is_whitespace (hd (strip s))"
proof -
  assume ne: "strip s \<noteq> []"
  obtain ys where ys: "dropWhile is_whitespace s = strip s @ ys" using strip_prefix by blast
  with ne have "hd (strip s) = hd (dropWhile is_whitespace s)" by simp
  moreover from ys ne have "dropWhile is_whitespace s \<noteq> []" by auto
  ultimately show ?thesis using hd_dropWhile by metis
qed

lemma strip_last: "strip s \<noteq> [] \<Longrightarrow> \<not> is_whitespace (last (strip s))"
  unfolding strip_def
  by (simp add: last_rev hd_dropWhile)

lemma strip_set: "set (strip s) \<subseteq> set s"
proof
  fix x assume "x \<in> set (strip s)"
  then have "x \<in> set (dropWhile is_whitespace (rev (dropWhile is_whitespace s)))"
    by (simp add: strip_def)
  then have "x \<in> set (rev (dropWhile is_whitespace s))" by (rule set_dropWhileD)
  then have "x \<in> set (dropWhile is_whitespace s)" by simp
  then show "x \<in> set s" by (rule set_dropWhileD)
qed


lemma filter_letters_dropWhile:
  "filter is_letter (dropWhile is_whitespace s) = filter is_letter s"
  by (induction s) (auto simp: whitespace_not_letter)

lemma filter_letters_strip: "filter is_letter (strip s) = filter is_letter s"
proof -
  have "filter is_letter (strip s) = rev (filter is_letter (rev (dropWhile is_whitespace s)))"
    by (simp add: strip_def rev_filter [symmetric] filter_letters_dropWhile)
  also have "\<dots> = filter is_letter (dropWhile is_whitespace s)"
    by (simp add: rev_filter)
  finally show ?thesis by (simp add: filter_letters_dropWhile)
qed

lemma filter_letters_collapse:
  "filter is_letter (collapse_whitespace s) = filter is_letter s"
proof -
  have h: "filter is_letter xs = filter is_letter (filter (\<lambda>c. \<not> is_whitespace c) xs)" for xs
    by (induction xs) (auto simp: whitespace_not_letter)
  have "filter is_letter (collapse_whitespace s)
      = filter is_letter (filter (\<lambda>c. \<not> is_whitespace c) (collapse_whitespace s))"
    by (rule h)
  also have "\<dots> = filter is_letter (filter (\<lambda>c. \<not> is_whitespace c) s)"
    by (simp only: collapse_filter)
  also have "\<dots> = filter is_letter s"
    by (rule h [symmetric])
  finally show ?thesis .
qed

lemma word_starts_upper_titled:
  "titled b r \<Longrightarrow> \<forall>c \<in> set r. is_letter c \<or> c = 32 \<Longrightarrow> (a \<longrightarrow> \<not> b) \<Longrightarrow>
   word_starts_upper a r"
proof (induction r arbitrary: a b)
  case Nil
  then show ?case by simp
next
  case (Cons c cs)
  have "word_starts_upper (c = 32) cs"
  proof (rule Cons.IH)
    show "titled (is_letter c) cs" using Cons.prems(1) by simp
    show "\<forall>c \<in> set cs. is_letter c \<or> c = 32" using Cons.prems(2) by simp
    show "c = 32 \<longrightarrow> \<not> is_letter c" by (simp add: space_not_letter)
  qed
  moreover have "is_upper c" if "a" "c \<noteq> 32"
  proof -
    from that Cons.prems(2) have "is_letter c" by simp
    moreover from that Cons.prems(3) have "\<not> b" by simp
    ultimately show ?thesis using Cons.prems(1) by simp
  qed
  ultimately show ?case by simp
qed

lemma no_letters_iff: "\<not> list_ex is_letter s \<longleftrightarrow> filter is_letter s = []"
  by (simp add: list_ex_iff filter_empty_conv)

lemma map_lower_empty: "map to_lower xs = [] \<longleftrightarrow> xs = []"
  by simp

subsection \<open>The words of the cleaned name\<close>

lemma whitespace_is_separator: "is_whitespace c \<Longrightarrow> is_separator c"
  by (simp add: is_separator_def)

lemma letter_not_separator: "is_letter c \<Longrightarrow> \<not> is_separator c"
  by (auto simp: is_separator_def is_letter_def is_whitespace_def)

lemma words_from_cleaned:
  "words_from w (letters_and_spaces (hyphens_to_spaces s)) = words_from w s"
proof (induction s arbitrary: w)
  case Nil
  then show ?case by (simp add: letters_and_spaces_def hyphens_to_spaces_def)
next
  case (Cons c cs)
  have IH: "words_from v (letters_and_spaces (hyphens_to_spaces cs)) = words_from v cs" for v
    by (rule Cons.IH)
  have unfold: "letters_and_spaces (hyphens_to_spaces (c # cs)) =
      (let c' = (if c = 45 \<or> c = 95 then 32 else c)
       in if is_letter c' \<or> is_whitespace c'
          then c' # letters_and_spaces (hyphens_to_spaces cs)
          else letters_and_spaces (hyphens_to_spaces cs))"
    by (simp add: letters_and_spaces_def hyphens_to_spaces_def)
  consider (hyphen) "c = 45 \<or> c = 95" | (space) "is_whitespace c" "c \<noteq> 45" "c \<noteq> 95"
    | (letter) "is_letter c" | (other) "\<not> is_letter c" "\<not> is_whitespace c" "c \<noteq> 45" "c \<noteq> 95"
    by blast
  then show ?case
  proof cases
    case hyphen
    then have "is_separator c" by (auto simp: is_separator_def)
    with hyphen show ?thesis
      by (auto simp: unfold IH space_is_whitespace whitespace_is_separator)
  next
    case space
    then show ?thesis by (simp add: unfold IH whitespace_is_separator)
  next
    case letter
    then have "c \<noteq> 45" "c \<noteq> 95" by (auto simp: is_letter_def)
    with letter show ?thesis by (simp add: unfold IH letter_not_separator)
  next
    case other
    then show ?thesis by (simp add: unfold IH is_separator_def)
  qed
qed

lemma words_from_dropWhile:
  "words_from [] (dropWhile is_whitespace x) = words_from [] x"
  by (induction x) (auto simp: whitespace_is_separator)

lemma words_from_all_whitespace:
  "\<forall>c \<in> set ys. is_whitespace c \<Longrightarrow> words_from w ys = (if w = [] then [] else [w])"
  by (induction ys arbitrary: w) (auto simp: whitespace_is_separator)

lemma words_from_trailing:
  "\<forall>c \<in> set ys. is_whitespace c \<Longrightarrow> words_from w (x @ ys) = words_from w x"
  by (induction x arbitrary: w) (auto simp: words_from_all_whitespace)

lemma strip_suffix:
  "\<exists>ys. dropWhile is_whitespace s = strip s @ ys \<and> (\<forall>c \<in> set ys. is_whitespace c)"
proof -
  let ?u = "dropWhile is_whitespace s"
  have "rev (takeWhile is_whitespace (rev ?u) @ dropWhile is_whitespace (rev ?u)) = rev (rev ?u)"
    by (simp only: takeWhile_dropWhile_id)
  then have "rev (dropWhile is_whitespace (rev ?u)) @ rev (takeWhile is_whitespace (rev ?u)) = ?u"
    by (simp only: rev_append rev_rev_ident)
  then have "?u = strip s @ rev (takeWhile is_whitespace (rev ?u))"
    by (simp only: strip_def)
  moreover have "\<forall>c \<in> set (rev (takeWhile is_whitespace (rev ?u))). is_whitespace c"
    by (auto dest: set_takeWhileD)
  ultimately show ?thesis by blast
qed

lemma words_from_strip: "words_from [] (strip x) = words_from [] x"
proof -
  obtain ys where ys: "dropWhile is_whitespace x = strip x @ ys" "\<forall>c \<in> set ys. is_whitespace c"
    using strip_suffix by blast
  have "words_from [] (strip x) = words_from [] (strip x @ ys)"
    using ys(2) by (simp add: words_from_trailing)
  also have "\<dots> = words_from [] (dropWhile is_whitespace x)" by (simp only: ys(1))
  also have "\<dots> = words_from [] x" by (rule words_from_dropWhile)
  finally show ?thesis .
qed

lemma words_from_collapse: "words_from w (collapse_whitespace x) = words_from w x"
proof (induction x arbitrary: w rule: collapse_whitespace.induct)
  case 1
  then show ?case by simp
next
  case (2 c cs)
  show ?case
  proof (cases "is_whitespace c")
    case True
    have "words_from [] (collapse_whitespace (dropWhile is_whitespace cs))
        = words_from [] (dropWhile is_whitespace cs)"
      using True by (rule "2.IH"(1))
    also have "\<dots> = words_from [] cs" by (rule words_from_dropWhile)
    finally show ?thesis
      using True by (simp add: whitespace_is_separator space_is_whitespace)
  next
    case False
    then show ?thesis by (simp add: "2.IH"(2))
  qed
qed

lemma capitalize_snoc:
  "capitalize (w @ [c]) = capitalize w @ [if w = [] then to_upper c else to_lower c]"
  by (cases w) simp_all

lemma capitalize_empty: "capitalize w = [] \<longleftrightarrow> w = []"
  by (cases w) simp_all

lemma words_from_title:
  "\<forall>c \<in> set t. is_letter c \<or> is_whitespace c \<Longrightarrow>
   words_from (capitalize w) (title_from (w \<noteq> []) t) = map capitalize (words_from w t)"
proof (induction t arbitrary: w)
  case Nil
  then show ?case by (simp add: capitalize_empty)
next
  case (Cons c cs)
  then have rest: "\<forall>c \<in> set cs. is_letter c \<or> is_whitespace c" by simp
  show ?case
  proof (cases "is_letter c")
    case True
    let ?c' = "if w \<noteq> [] then to_lower c else to_upper c"
    have l': "is_letter ?c'" using True by (simp add: is_letter_to_upper is_letter_to_lower)
    have "words_from (capitalize (w @ [c])) (title_from (w @ [c] \<noteq> []) cs)
        = map capitalize (words_from (w @ [c]) cs)"
      using rest by (rule Cons.IH)
    moreover have "capitalize (w @ [c]) = capitalize w @ [?c']"
      by (simp add: capitalize_snoc)
    ultimately have "words_from (capitalize w @ [?c']) (title_from True cs)
        = map capitalize (words_from (w @ [c]) cs)"
      by simp
    with True l' show ?thesis
      by (simp add: Let_def letter_not_separator)
  next
    case False
    with Cons.prems have ws: "is_whitespace c" by simp
    have "words_from (capitalize []) (title_from ([] \<noteq> ([] :: pystr)) cs)
        = map capitalize (words_from [] cs)"
      using rest by (rule Cons.IH)
    then have "words_from [] (title_from False cs) = map capitalize (words_from [] cs)"
      by simp
    with ws False show ?thesis
      by (simp add: Let_def to_upper_whitespace to_lower_whitespace whitespace_is_separator
          capitalize_empty)
  qed
qed

lemma join_words_Cons: "ws \<noteq> [] \<Longrightarrow> join_words (w # ws) = w @ 32 # join_words ws"
  by (cases ws) simp_all

lemma join_words_of_normal:
  assumes "\<forall>c \<in> set x. is_letter c \<or> c = 32" "single_spaces x"
    "x \<noteq> [] \<longrightarrow> last x \<noteq> 32" "w = [] \<longrightarrow> x = [] \<or> hd x \<noteq> 32"
  shows "join_words (words_from w x) = w @ x"
  using assms
proof (induction x arbitrary: w)
  case Nil
  then show ?case by simp
next
  case (Cons c cs)
  have chars: "\<forall>c \<in> set cs. is_letter c \<or> c = 32" using Cons.prems(1) by simp
  have single: "single_spaces cs" using Cons.prems(2) by (cases cs) simp_all
  have lst: "cs \<noteq> [] \<longrightarrow> last cs \<noteq> 32" using Cons.prems(3) by auto
  show ?case
  proof (cases "c = 32")
    case True
    with Cons.prems(4) have w: "w \<noteq> []" by auto
    from True Cons.prems(3) have ne: "cs \<noteq> []" by auto
    with True Cons.prems(2) have hd: "hd cs \<noteq> 32" by (cases cs) simp_all
    have "join_words (words_from [] cs) = [] @ cs"
      using chars single lst by (rule Cons.IH) (simp add: hd)
    then have j: "join_words (words_from [] cs) = cs" by simp
    with ne have "words_from [] cs \<noteq> []" by auto
    with True w j show ?thesis
      by (simp add: whitespace_is_separator space_is_whitespace join_words_Cons)
  next
    case False
    with Cons.prems(1) have l: "is_letter c" by simp
    have "join_words (words_from (w @ [c]) cs) = (w @ [c]) @ cs"
      using chars single lst by (rule Cons.IH) simp
    with l show ?thesis by (simp add: letter_not_separator)
  qed
qed

subsection \<open>Evaluating the parser\<close>

lemma title_from_upper:
  "is_letter c \<Longrightarrow> title_from False (c # cs) = to_upper c # title_from True cs"
  by (simp add: Let_def is_letter_to_upper)

lemma title_from_lower:
  "is_letter c \<Longrightarrow> title_from True (c # cs) = to_lower c # title_from True cs"
  by (simp add: Let_def is_letter_to_lower)

lemma title_from_other:
  "\<not> is_letter c \<Longrightarrow> title_from b (c # cs) = c # title_from False cs"
  by (simp add: Let_def to_upper_other to_lower_other)

lemmas parse_eval =
  py_def parse_handwriting_def hyphens_to_spaces_def letters_and_spaces_def is_whitespace_def
  strip_def title_def title_from_upper title_from_lower title_from_other is_letter_def
  to_upper_def to_lower_def

lemmas cleaned_eval =
  py_def cleaned_name_def name_words_def is_separator_def is_letter_def is_whitespace_def
  to_upper_def to_lower_def

text \<open>
  Claim C10. For every input string, \<open>parse_handwriting\<close> returns \<open>None\<close> exactly when
  the input holds no ASCII letter. Otherwise it returns a non-empty string made of ASCII
  letters and spaces only, with no whitespace at either end, with no two spaces in a row,
  and with an upper-case letter at the start of every word. The string is the one
  obtained by replacing hyphens and underscores with spaces and deleting every other
  character that is neither a letter nor whitespace: it is \<open>cleaned_name\<close> of the input,
  the words that whitespace, hyphens and underscores separate, each reduced to its
  letters and capitalised, joined by single spaces; in particular its letters are, up to
  case and in the same order, the letters of the input.
\<close>

theorem parse_handwriting_spec:
  "parse_handwriting s = cleaned_name s \<and>
   (parse_handwriting s = None \<longleftrightarrow> \<not> list_ex is_letter s) \<and>
   (\<forall>r. parse_handwriting s = Some r \<longrightarrow>
      r \<noteq> [] \<and>
      list_all (\<lambda>c. is_letter c \<or> c = 32) r \<and>
      \<not> is_whitespace (hd r) \<and> \<not> is_whitespace (last r) \<and>
      single_spaces r \<and>
      word_starts_upper True r \<and>
      map to_lower (filter is_letter r) = map to_lower (filter is_letter s))"
proof -
  define t2 where "t2 = letters_and_spaces (hyphens_to_spaces s)"
  define t3 where "t3 = title t2"
  define t4 where "t4 = collapse_whitespace t3"
  define r where "r = strip t4"
  have ph: "parse_handwriting s = (if r = [] then None else Some r)"
    by (simp add: parse_handwriting_def Let_def r_def t4_def t3_def t2_def)
  have c2: "\<forall>c \<in> set t2. is_letter c \<or> is_whitespace c"
    using cleaned_chars by (auto simp: t2_def)
  then have c3: "\<forall>c \<in> set t3. is_letter c \<or> is_whitespace c"
    unfolding t3_def title_def by (rule title_from_chars)
  then have c4: "\<forall>c \<in> set t4. is_letter c \<or> c = 32"
    unfolding t4_def by (rule collapse_chars)
  with strip_set [of t4] have cr: "\<forall>c \<in> set r. is_letter c \<or> c = 32"
    by (auto simp: r_def)
  have letters: "map to_lower (filter is_letter r) = map to_lower (filter is_letter s)"
    by (simp add: r_def t4_def t3_def t2_def title_def filter_letters_strip
        filter_letters_collapse title_from_letters filter_letters_cleaned)
  have "r = [] \<longleftrightarrow> filter is_letter r = []"
  proof
    assume "filter is_letter r = []"
    then have nl: "\<forall>c \<in> set r. \<not> is_letter c" by (simp only: filter_empty_conv)
    show "r = []"
    proof (rule ccontr)
      assume ne: "r \<noteq> []"
      then have "\<not> is_whitespace (hd r)" unfolding r_def by (rule strip_hd)
      moreover from ne have "hd r \<in> set r" by simp
      with nl cr have "hd r = 32" by blast
      ultimately show False by (simp add: space_is_whitespace)
    qed
  next
    assume "r = []"
    then show "filter is_letter r = []" by simp
  qed
  also have "\<dots> \<longleftrightarrow> filter is_letter s = []"
  proof -
    have "(map to_lower (filter is_letter r) = []) = (map to_lower (filter is_letter s) = [])"
      by (simp only: letters)
    then show ?thesis by (simp only: map_lower_empty)
  qed
  finally have none: "r = [] \<longleftrightarrow> \<not> list_ex is_letter s"
    by (simp add: no_letters_iff)
  have "titled False t3" unfolding t3_def title_def by (rule titled_title_from)
  then have "titled False t4" unfolding t4_def by (rule titled_collapse)
  then have "titled False (dropWhile is_whitespace t4)" by (rule titled_dropWhile)
  moreover obtain ys where ys: "dropWhile is_whitespace t4 = r @ ys"
    using strip_prefix [of t4] by (auto simp: r_def)
  ultimately have "titled False r" using titled_prefix [of False r ys] by simp
  then have upper: "word_starts_upper True r"
    using cr by (rule word_starts_upper_titled) simp
  have "single_spaces t4" unfolding t4_def by (rule single_spaces_collapse)
  then have "single_spaces (dropWhile is_whitespace t4)" by (rule single_spaces_dropWhile)
  with ys have single: "single_spaces r" using single_spaces_prefix [of r ys] by simp
  have ends: "\<not> is_whitespace (hd r) \<and> \<not> is_whitespace (last r)" if "r \<noteq> []"
    using that strip_hd [of t4] strip_last [of t4] by (simp add: r_def)
  have "words_from [] r = words_from [] t4"
    unfolding r_def by (rule words_from_strip)
  also have "\<dots> = words_from [] t3"
    unfolding t4_def by (rule words_from_collapse)
  also have "\<dots> = words_from (capitalize []) (title_from ([] \<noteq> ([] :: pystr)) t2)"
    by (simp add: t3_def title_def)
  also have "\<dots> = map capitalize (words_from [] t2)"
    using c2 by (rule words_from_title)
  also have "\<dots> = map capitalize (name_words s)"
    by (simp add: t2_def words_from_cleaned name_words_def)
  finally have words: "words_from [] r = map capitalize (name_words s)" .
  have "join_words (words_from [] r) = [] @ r"
    using cr single
  proof (rule join_words_of_normal)
    show "r \<noteq> [] \<longrightarrow> last r \<noteq> 32" using ends space_is_whitespace by auto
    show "[] = ([] :: pystr) \<longrightarrow> r = [] \<or> hd r \<noteq> 32" using ends space_is_whitespace by auto
  qed
  with words have joined: "join_words (map capitalize (name_words s)) = r" by simp
  have "r = [] \<longleftrightarrow> name_words s = []"
  proof
    assume "r = []"
    with words show "name_words s = []" by simp
  next
    assume "name_words s = []"
    with joined show "r = []" by simp
  qed
  with ph joined have spec: "parse_handwriting s = cleaned_name s"
    by (simp add: cleaned_name_def)
  show ?thesis
  proof (cases "r = []")
    case True
    with ph none spec show ?thesis by simp
  next
    case False
    from cr have "list_all (\<lambda>c. is_letter c \<or> c = 32) r" by (simp add: list_all_iff)
    with False ph none upper single ends [OF False] letters spec show ?thesis by simp
  qed
qed

theorem parse_handwriting_spec_witness:
  "parse_handwriting (py ''meat-ball_soup'') = Some (py ''Meat Ball Soup'') \<and>
   cleaned_name (py ''meat-ball_soup'') = Some (py ''Meat Ball Soup'') \<and>
   parse_handwriting (py ''alpHa-alFRedo_9 '') = Some (py ''Alpha Alfredo'') \<and>
   parse_handwriting (py ''Riz@z'' @ [8195, 12288] @ py ''RISO00tto!'') = Some (py ''Rizz Risotto'') \<and>
   list_ex is_letter (py ''alpHa-alFRedo_9 '') \<and>
   single_spaces (py ''Alpha Alfredo'') \<and> word_starts_upper True (py ''Alpha Alfredo'') \<and>
   parse_handwriting (py ''2-_ 7'') = None \<and> cleaned_name (py ''2-_ 7'') = None"
proof -
  have a: "parse_handwriting (py ''alpHa-alFRedo_9 '') = Some (py ''Alpha Alfredo'')"
    by (simp add: parse_eval del: title_from.simps(2))
  have b: "\<not> list_ex is_letter (py ''2-_ 7'')"
    by (simp add: py_def is_letter_def)
  have c: "cleaned_name (py ''meat-ball_soup'') = Some (py ''Meat Ball Soup'')"
    by (simp add: cleaned_eval)
  have d: "parse_handwriting (py ''Riz@z'' @ [8195, 12288] @ py ''RISO00tto!'')
      = Some (py ''Rizz Risotto'')"
    by (simp add: parse_eval del: title_from.simps(2))
  from parse_handwriting_spec [of "py ''alpHa-alFRedo_9 ''"] a
  have p: "list_ex is_letter (py ''alpHa-alFRedo_9 '') \<and> single_spaces (py ''Alpha Alfredo'') \<and>
      word_starts_upper True (py ''Alpha Alfredo'')"
    by simp
  from parse_handwriting_spec [of "py ''meat-ball_soup''"] c
  have m: "parse_handwriting (py ''meat-ball_soup'') = Some (py ''Meat Ball Soup'')"
    by simp
  from parse_handwriting_spec [of "py ''2-_ 7''"] b
  have n: "parse_handwriting (py ''2-_ 7'') = None \<and> cleaned_name (py ''2-_ 7'') = None"
    by metis
  from a c d p m n show ?thesis by (intro conjI) simp_all
qed

section \<open>Invariants of the loop of the summary\<close>

subsection \<open>The dictionary\<close>

lemma look_for_item_name: "look_for_item n cb = Some item \<Longrightarrow> name item = n"
  by (induction cb) (auto split: if_splits)

lemma look_for_item_mem: "look_for_item n cb = Some item \<Longrightarrow> item \<in> set cb"
  by (induction cb) (auto split: if_splits)

lemma map_of_dict_set: "map_of (dict_set k v d) = (map_of d)(k \<mapsto> v)"
  by (induction d) (auto simp: fun_eq_iff)

lemma keys_dict_set: "fst ` set (dict_set k v d) = insert k (fst ` set d)"
  by (induction d) auto

lemma distinct_dict_set: "distinct (map fst d) \<Longrightarrow> distinct (map fst (dict_set k v d))"
  by (induction d) (auto simp: keys_dict_set)

lemma map_of_dict_remove: "map_of (filter (\<lambda>p. fst p \<noteq> k) d) = (map_of d)(k := None)"
  by (induction d) (auto simp: fun_eq_iff)

lemma distinct_dict_remove: "distinct (map fst d) \<Longrightarrow> distinct (map fst (filter (\<lambda>p. fst p \<noteq> k) d))"
  by (simp add: distinct_map_filter)

lemma required_quantity_Cons:
  "required_quantity (item # items) n =
     (if item_name item = n then item_quantity item else 0) + required_quantity items n"
  by (simp add: required_quantity_def)

lemma required_quantity_absent:
  "n \<notin> item_name ` set items \<Longrightarrow> required_quantity items n = 0"
  by (induction items) (auto simp: required_quantity_def)

lemma distinct_add_required_items:
  "distinct (map fst ing) \<Longrightarrow> distinct (map fst (snd (add_required_items pq items queue ing)))"
  by (induction items arbitrary: queue ing) (auto simp: distinct_dict_set split: option.splits)

lemma map_of_add_required_items:
  "map_of (snd (add_required_items pq items queue ing)) n =
     (if n \<in> item_name ` set items
      then Some \<lparr>quantity = quantity_of ing n + pq * required_quantity items n,
                  unit_cook_time = cook_time_of ing n\<rparr>
      else map_of ing n)"
proof (induction items arbitrary: queue ing)
  case Nil
  then show ?case by simp
next
  case (Cons item items)
  let ?ing1 = "(case map_of ing (item_name item) of
          Some info \<Rightarrow>
            dict_set (item_name item)
              (info\<lparr>quantity := quantity info + pq * item_quantity item\<rparr>)
              ing
        | None \<Rightarrow>
            dict_set (item_name item)
              \<lparr>quantity = pq * item_quantity item, unit_cook_time = 0\<rparr>
              ing)"
  have m1: "map_of ?ing1 = (map_of ing)(item_name item \<mapsto>
      \<lparr>quantity = quantity_of ing (item_name item) + pq * item_quantity item,
       unit_cook_time = cook_time_of ing (item_name item)\<rparr>)"
    by (auto simp: map_of_dict_set quantity_of_def cook_time_of_def split: option.splits)
  have q1: "quantity_of ?ing1 n = quantity_of ing n + (if item_name item = n then pq * item_quantity item else 0)"
    unfolding quantity_of_def[of ?ing1] m1 by (simp add: quantity_of_def)
  have c1: "cook_time_of ?ing1 n = cook_time_of ing n"
    unfolding cook_time_of_def[of ?ing1] m1 by (simp add: cook_time_of_def)
  have "map_of (snd (add_required_items pq (item # items) queue ing)) n
      = map_of (snd (add_required_items pq items (queue @ [item_name item]) ?ing1)) n"
    by simp
  also have "\<dots> = (if n \<in> item_name ` set items
      then Some \<lparr>quantity = quantity_of ?ing1 n + pq * required_quantity items n,
                  unit_cook_time = cook_time_of ?ing1 n\<rparr>
      else map_of ?ing1 n)"
    by (rule Cons.IH)
  also have "\<dots> = (if n \<in> item_name ` set (item # items)
      then Some \<lparr>quantity = quantity_of ing n + pq * required_quantity (item # items) n,
                  unit_cook_time = cook_time_of ing n\<rparr>
      else map_of ing n)"
    unfolding q1 c1 m1
    by (auto simp: required_quantity_Cons required_quantity_absent algebra_simps)
  finally show ?case .
qed


lemma process_item_recipe_eq:
  "etype item = ''recipe'' \<Longrightarrow>
   process_item item rest ing =
     Inr (rest @ map item_name (requiredItems item),
          snd (add_required_items (quantity_of ing (name item)) (requiredItems item) rest
                 (filter (\<lambda>p. fst p \<noteq> name item) ing)))"
  by (simp add: process_item_def expand_recipe_def record_cook_time_def dict_pop_def Let_def
      split_beta prod_eq_iff fst_add_required_items quantity_of_def)

lemma process_item_ingredient_eq:
  "etype item = ''ingredient'' \<Longrightarrow>
   process_item item rest ing =
     (case map_of ing (name item) of
        None \<Rightarrow> Inl (KeyError (name item))
      | Some info \<Rightarrow>
          Inr (rest, dict_set (name item) (info\<lparr>unit_cook_time := cookTime item\<rparr>) ing))"
  by (simp add: process_item_def expand_recipe_def record_cook_time_def split: option.splits)

lemma process_item_other_eq:
  "etype item \<noteq> ''recipe'' \<Longrightarrow> etype item \<noteq> ''ingredient'' \<Longrightarrow>
   process_item item rest ing = Inr (rest, ing)"
  by (simp add: process_item_def expand_recipe_def record_cook_time_def)

text \<open>An invariant of the loop holds of the dictionary it ends with.\<close>

lemma summary_loop_invariant:
  assumes "summary_loop cb q ing = Some (Inr res)"
    and "Inv q ing"
    and "\<And>c rest ing item q' ing'.
           Inv (c # rest) ing \<Longrightarrow> look_for_item c cb = Some item \<Longrightarrow>
           process_item item rest ing = Inr (q', ing') \<Longrightarrow> Inv q' ing'"
  shows "Inv [] res"
proof -
  have "\<forall>res. y = Inr res \<longrightarrow> Inv q ing \<longrightarrow>
          (\<forall>c rest ing item q' ing'.
             Inv (c # rest) ing \<longrightarrow> look_for_item c cb = Some item \<longrightarrow>
             process_item item rest ing = Inr (q', ing') \<longrightarrow> Inv q' ing') \<longrightarrow> Inv [] res"
    if "summary_loop cb q ing = Some y" for y
    using that
  proof (induction rule: summary_loop_induct)
    case (step loop cb q ing y)
    show ?case
    proof (intro allI impI)
      fix res
      assume y: "y = Inr res" and inv: "Inv q ing"
        and pres: "\<forall>c rest ing item q' ing'.
             Inv (c # rest) ing \<longrightarrow> look_for_item c cb = Some item \<longrightarrow>
             process_item item rest ing = Inr (q', ing') \<longrightarrow> Inv q' ing'"
      show "Inv [] res"
      proof (cases q)
        case Nil
        with step(2) y inv show ?thesis by simp
      next
        case (Cons c rest)
        with step(2) y obtain item q' ing' where
          look: "look_for_item c cb = Some item" and
          proc: "process_item item rest ing = Inr (q', ing')" and
          rec: "loop cb q' ing' = Some y"
          by (auto split: option.splits sum.splits)
        from pres inv Cons look proc have "Inv q' ing'" by blast
        with step(1) [OF rec] y pres show ?thesis by blast
      qed
    qed
  qed
  with assms show ?thesis by blast
qed

subsection \<open>Keys, queue and recorded cook times\<close>

lemma loop_inv_step:
  assumes inv: "loop_inv cb (c # rest) ing"
    and look: "look_for_item c cb = Some item"
    and proc: "process_item item rest ing = Inr (q', ing')"
  shows "loop_inv cb q' ing'"
proof -
  have nm: "name item = c" using look by (rule look_for_item_name)
  from inv have D: "distinct (map fst ing)"
    and J: "\<And>n. n \<in> set (c # rest) \<Longrightarrow> map_of ing n \<noteq> None \<or> is_recipe cb n"
    and I: "\<And>n i. map_of ing n = Some i \<Longrightarrow> n \<in> set (c # rest) \<or>
        (\<not> is_recipe cb n \<and> look_for_item n cb \<noteq> None \<and>
         (is_ingredient cb n \<longrightarrow> unit_cook_time i = catalog_cook_time cb n))"
    by (auto simp: loop_inv_def)
  consider (recipe) "etype item = ''recipe''" | (ingredient) "etype item = ''ingredient''"
    | (other) "etype item \<noteq> ''recipe''" "etype item \<noteq> ''ingredient''"
    by blast
  then show ?thesis
  proof cases
    case recipe
    then have rc: "is_recipe cb c" using look by (simp add: is_recipe_def)
    let ?items = "requiredItems item"
    from proc recipe nm have q': "q' = rest @ map item_name ?items"
      and ing': "ing' = snd (add_required_items (quantity_of ing c) ?items rest
                 (filter (\<lambda>p. fst p \<noteq> c) ing))"
      by (simp_all add: process_item_recipe_eq)
    have m: "map_of ing' n =
       (if n \<in> item_name ` set ?items
        then Some \<lparr>quantity = quantity_of (filter (\<lambda>p. fst p \<noteq> c) ing) n
                       + quantity_of ing c * required_quantity ?items n,
                    unit_cook_time = cook_time_of (filter (\<lambda>p. fst p \<noteq> c) ing) n\<rparr>
        else ((map_of ing)(c := None)) n)" for n
      unfolding ing' by (simp add: map_of_add_required_items map_of_dict_remove)
    have "distinct (map fst ing')"
      unfolding ing' using D by (simp add: distinct_add_required_items distinct_dict_remove)
    moreover have "map_of ing' n \<noteq> None \<or> is_recipe cb n" if "n \<in> set q'" for n
    proof (cases "n \<in> item_name ` set ?items")
      case True
      then show ?thesis by (simp add: m)
    next
      case False
      with that q' have "n \<in> set rest" by auto
      with J [of n] rc False show ?thesis by (cases "n = c") (auto simp: m)
    qed
    moreover have "n \<in> set q' \<or>
        (\<not> is_recipe cb n \<and> look_for_item n cb \<noteq> None \<and>
         (is_ingredient cb n \<longrightarrow> unit_cook_time i = catalog_cook_time cb n))"
      if "map_of ing' n = Some i" for n i
    proof (cases "n \<in> item_name ` set ?items")
      case True
      then show ?thesis by (simp add: q')
    next
      case False
      with that have "n \<noteq> c" "map_of ing n = Some i" by (auto simp: m split: if_splits)
      with I [of n i] show ?thesis by (auto simp: q')
    qed
    ultimately show ?thesis by (simp add: loop_inv_def)
  next
    case ingredient
    then have nrc: "\<not> is_recipe cb c" and ic: "is_ingredient cb c"
      and ct: "catalog_cook_time cb c = cookTime item"
      using look by (simp_all add: is_recipe_def is_ingredient_def catalog_cook_time_def)
    from proc ingredient nm obtain info where info: "map_of ing c = Some info"
      and q': "q' = rest"
      and ing': "ing' = dict_set c (info\<lparr>unit_cook_time := cookTime item\<rparr>) ing"
      by (auto simp: process_item_ingredient_eq split: option.splits)
    have m: "map_of ing' = (map_of ing)(c \<mapsto> info\<lparr>unit_cook_time := cookTime item\<rparr>)"
      unfolding ing' by (rule map_of_dict_set)
    have "distinct (map fst ing')" unfolding ing' using D by (rule distinct_dict_set)
    moreover have "map_of ing' n \<noteq> None \<or> is_recipe cb n" if "n \<in> set q'" for n
      using that J [of n] by (auto simp: q' m)
    moreover have "n \<in> set q' \<or>
        (\<not> is_recipe cb n \<and> look_for_item n cb \<noteq> None \<and>
         (is_ingredient cb n \<longrightarrow> unit_cook_time i = catalog_cook_time cb n))"
      if "map_of ing' n = Some i" for n i
    proof (cases "n = c")
      case True
      with that have "i = info\<lparr>unit_cook_time := cookTime item\<rparr>" by (simp add: m)
      with True nrc look ct show ?thesis by simp
    next
      case False
      with that have "map_of ing n = Some i" by (simp add: m)
      with I [of n i] False show ?thesis by (auto simp: q')
    qed
    ultimately show ?thesis by (simp add: loop_inv_def)
  next
    case other
    with proc have q': "q' = rest" and ing': "ing' = ing"
      by (simp_all add: process_item_other_eq)
    from other look have nrc: "\<not> is_recipe cb c" and nic: "\<not> is_ingredient cb c"
      by (simp_all add: is_recipe_def is_ingredient_def)
    have "map_of ing n \<noteq> None \<or> is_recipe cb n" if "n \<in> set rest" for n
      using that J [of n] by simp
    moreover have "n \<in> set rest \<or>
        (\<not> is_recipe cb n \<and> look_for_item n cb \<noteq> None \<and>
         (is_ingredient cb n \<longrightarrow> unit_cook_time i = catalog_cook_time cb n))"
      if "map_of ing n = Some i" for n i
      using I [OF that] nrc nic look by (cases "n = c") auto
    ultimately show ?thesis using D by (simp add: loop_inv_def q' ing')
  qed
qed

lemma loop_inv_no_KeyError:
  assumes inv: "loop_inv cb (c # rest) ing"
    and look: "look_for_item c cb = Some item"
  shows "\<exists>q' ing'. process_item item rest ing = Inr (q', ing')"
proof -
  have nm: "name item = c" using look by (rule look_for_item_name)
  consider (recipe) "etype item = ''recipe''" | (ingredient) "etype item = ''ingredient''"
    | (other) "etype item \<noteq> ''recipe''" "etype item \<noteq> ''ingredient''"
    by blast
  then show ?thesis
  proof cases
    case recipe
    then show ?thesis by (simp add: process_item_recipe_eq)
  next
    case ingredient
    with look have "\<not> is_recipe cb c" by (simp add: is_recipe_def)
    with inv have "map_of ing c \<noteq> None" by (auto simp: loop_inv_def)
    with ingredient nm show ?thesis by (auto simp: process_item_ingredient_eq)
  next
    case other
    then show ?thesis by (simp add: process_item_other_eq)
  qed
qed

lemma loop_inv_initial:
  "is_recipe cb nm \<Longrightarrow> loop_inv cb [nm] [(nm, \<lparr>quantity = 1, unit_cook_time = 0\<rparr>)]"
  by (simp add: loop_inv_def)

lemma summary_Inr:
  assumes "summary cb nm = Some (Inr r)"
  shows "is_recipe cb nm \<and>
         (\<exists>ing. summary_loop cb [nm] [(nm, \<lparr>quantity = 1, unit_cook_time = 0\<rparr>)] = Some (Inr ing) \<and>
                r = \<lparr>summary_name = nm, summary_cookTime = total_cooktime ing,
                      summary_ingredients = ingredients_list ing\<rparr>)"
proof -
  from assms obtain target where t: "look_for_item nm cb = Some target" "etype target = ''recipe''"
    by (auto simp: summary_def split: option.splits if_splits)
  then have "name target = nm" using look_for_item_name by blast
  with assms t show ?thesis
    by (auto simp: summary_def is_recipe_def split: option.splits sum.splits)
qed

lemma summary_final_inv:
  assumes "summary cb nm = Some (Inr r)"
  obtains ing where
    "summary_loop cb [nm] [(nm, \<lparr>quantity = 1, unit_cook_time = 0\<rparr>)] = Some (Inr ing)"
    "r = \<lparr>summary_name = nm, summary_cookTime = total_cooktime ing,
          summary_ingredients = ingredients_list ing\<rparr>"
    "loop_inv cb [] ing"
proof -
  from summary_Inr [OF assms] obtain ing where rc: "is_recipe cb nm"
    and loop: "summary_loop cb [nm] [(nm, \<lparr>quantity = 1, unit_cook_time = 0\<rparr>)] = Some (Inr ing)"
    and r: "r = \<lparr>summary_name = nm, summary_cookTime = total_cooktime ing,
          summary_ingredients = ingredients_list ing\<rparr>"
    by blast
  have "loop_inv cb [] ing"
    using loop loop_inv_initial [OF rc]
  proof (rule summary_loop_invariant)
    fix c rest ing item q' ing'
    assume "loop_inv cb (c # rest) ing" "look_for_item c cb = Some item"
      "process_item item rest ing = Inr (q', ing')"
    then show "loop_inv cb q' ing'" by (rule loop_inv_step)
  qed
  with loop r show ?thesis using that by blast
qed

lemma valid_types_look:
  "valid_types cb \<Longrightarrow> look_for_item n cb \<noteq> None \<Longrightarrow> \<not> is_recipe cb n \<Longrightarrow> is_ingredient cb n"
proof -
  assume v: "valid_types cb" and l: "look_for_item n cb \<noteq> None" and nr: "\<not> is_recipe cb n"
  from l obtain item where item: "look_for_item n cb = Some item" by auto
  then have "item \<in> set cb" by (rule look_for_item_mem)
  with v have "etype item = ''recipe'' \<or> etype item = ''ingredient''"
    by (simp add: valid_types_def list_all_iff)
  with item nr show ?thesis by (simp add: is_recipe_def is_ingredient_def)
qed

lemma final_entries:
  assumes "loop_inv cb [] ing" "valid_types cb" "(n, i) \<in> set ing"
  shows "is_ingredient cb n \<and> unit_cook_time i = catalog_cook_time cb n"
proof -
  from assms(1) have D: "distinct (map fst ing)" by (simp add: loop_inv_def)
  with assms(3) have "map_of ing n = Some i" by simp
  with assms(1) have a: "\<not> is_recipe cb n" "look_for_item n cb \<noteq> None"
    "is_ingredient cb n \<longrightarrow> unit_cook_time i = catalog_cook_time cb n"
    by (auto simp: loop_inv_def)
  with valid_types_look [OF assms(2) a(2) a(1)] show ?thesis by simp
qed

text \<open>
  Claim C2. Whenever \<open>summary\<close> succeeds on a cookbook whose entries are recipes and
  ingredients, the cook time it returns is the sum, over the names of the returned
  ingredients, of the returned quantity times the cook time that the cookbook gives for
  that name; every such name is an ingredient of the cookbook, and the unit cook time
  recorded for it in the dictionary at the end of the loop is the cook time of the
  cookbook, never a missing or default one.
\<close>

theorem summary_cook_time_total:
  assumes "summary cb nm = Some (Inr r)" and "valid_types cb"
  shows "list_all (\<lambda>(n, q). is_ingredient cb n) (summary_ingredients r) \<and>
         summary_cookTime r =
           sum_list (map (\<lambda>(n, q). q * catalog_cook_time cb n) (summary_ingredients r)) \<and>
         (\<exists>ing. summary_loop cb [nm] [(nm, \<lparr>quantity = 1, unit_cook_time = 0\<rparr>)] = Some (Inr ing) \<and>
                summary_ingredients r = ingredients_list ing \<and>
                list_all (\<lambda>(n, i). unit_cook_time i = catalog_cook_time cb n) ing)"
proof -
  from assms(1) obtain ing where
    loop: "summary_loop cb [nm] [(nm, \<lparr>quantity = 1, unit_cook_time = 0\<rparr>)] = Some (Inr ing)" and
    r: "r = \<lparr>summary_name = nm, summary_cookTime = total_cooktime ing,
          summary_ingredients = ingredients_list ing\<rparr>" and
    inv: "loop_inv cb [] ing"
    by (rule summary_final_inv)
  have fin: "is_ingredient cb n \<and> unit_cook_time i = catalog_cook_time cb n"
    if "(n, i) \<in> set ing" for n i
    using inv assms(2) that by (rule final_entries)
  have 1: "list_all (\<lambda>(n, q). is_ingredient cb n) (summary_ingredients r)"
    using fin by (auto simp: r ingredients_list_def list_all_iff)
  have e: "map (\<lambda>(k, info). quantity info * unit_cook_time info) ing
      = map (\<lambda>(k, info). quantity info * catalog_cook_time cb k) ing"
    using fin by (auto intro!: map_cong)
  have "summary_cookTime r = sum_list (map (\<lambda>(k, info). quantity info * unit_cook_time info) ing)"
    by (simp add: r total_cooktime_def)
  also have "\<dots> = sum_list (map (\<lambda>(k, info). quantity info * catalog_cook_time cb k) ing)"
    by (simp only: e)
  also have "\<dots> = sum_list (map (\<lambda>(n, q). q * catalog_cook_time cb n) (summary_ingredients r))"
    by (simp add: r ingredients_list_def comp_def case_prod_unfold)
  finally have 2: "summary_cookTime r =
           sum_list (map (\<lambda>(n, q). q * catalog_cook_time cb n) (summary_ingredients r))" .
  have 3: "list_all (\<lambda>(n, i). unit_cook_time i = catalog_cook_time cb n) ing"
    using fin by (auto simp: list_all_iff)
  from 1 2 3 loop r show ?thesis by simp
qed


theorem summary_cook_time_total_witness:
  "summary [Recipe ''Cake'' [(''Flour'', 2), (''Egg'', 3)], Ingredient ''Flour'' 5, Ingredient ''Egg'' 1] ''Cake''
     = Some (Inr \<lparr>summary_name = ''Cake'', summary_cookTime = 13,
                     summary_ingredients = [(''Flour'', 2), (''Egg'', 3)]\<rparr>) \<and>
   valid_types [Recipe ''Cake'' [(''Flour'', 2), (''Egg'', 3)], Ingredient ''Flour'' 5, Ingredient ''Egg'' 1] \<and>
   (13 :: int) = 2 * catalog_cook_time [Recipe ''Cake'' [(''Flour'', 2), (''Egg'', 3)], Ingredient ''Flour'' 5, Ingredient ''Egg'' 1] ''Flour''
      + 3 * catalog_cook_time [Recipe ''Cake'' [(''Flour'', 2), (''Egg'', 3)], Ingredient ''Flour'' 5, Ingredient ''Egg'' 1] ''Egg''"
proof -
  let ?cb = "[Recipe ''Cake'' [(''Flour'', 2), (''Egg'', 3)], Ingredient ''Flour'' 5, Ingredient ''Egg'' 1]"
  have s: "summary ?cb ''Cake''
     = Some (Inr \<lparr>summary_name = ''Cake'', summary_cookTime = 13,
                     summary_ingredients = [(''Flour'', 2), (''Egg'', 3)]\<rparr>)"
    by (simp add: summary_eval)
  have v: "valid_types ?cb"
    by (simp add: valid_types_def Recipe_def Ingredient_def)
  from summary_cook_time_total [OF s v] s v show ?thesis by simp
qed

subsection \<open>Positive quantities\<close>

lemma satisfied_mono:
  assumes "satisfied cb ing x"
    and "\<And>n. 0 < quantity_of ing n \<Longrightarrow> satisfied cb ing' n"
  shows "satisfied cb ing' x"
  using assms(1)
proof (induction rule: satisfied.induct)
  case (pending n)
  then show ?case by (rule assms(2))
next
  case (expanded n item)
  then show ?case by (auto intro: satisfied.expanded)
qed

lemma positive_items:
  assumes "positive_quantities cb" "look_for_item c cb = Some item" "etype item = ''recipe''"
  shows "\<forall>i \<in> set (requiredItems item). 0 < item_quantity i"
proof -
  from assms(2) have "item \<in> set cb" by (rule look_for_item_mem)
  with assms(1,3) show ?thesis by (auto simp: positive_quantities_def list_all_iff)
qed

lemma required_quantity_Nil: "required_quantity [] n = 0"
  by (simp add: required_quantity_def)

lemma required_quantity_nonneg:
  "\<forall>i \<in> set items. 0 < item_quantity i \<Longrightarrow> 0 \<le> required_quantity items n"
  by (induction items) (auto simp: required_quantity_Cons required_quantity_Nil)

lemma required_quantity_pos:
  "\<forall>i \<in> set items. 0 < item_quantity i \<Longrightarrow> n \<in> item_name ` set items \<Longrightarrow>
   0 < required_quantity items n"
proof (induction items)
  case Nil
  then show ?case by simp
next
  case (Cons i items)
  then have "0 \<le> required_quantity items n" by (simp add: required_quantity_nonneg)
  with Cons show ?case by (auto simp: required_quantity_Cons)
qed

lemma quantity_of_remove:
  "quantity_of (filter (\<lambda>p. fst p \<noteq> c) ing) n = (if n = c then 0 else quantity_of ing n)"
  by (simp add: quantity_of_def map_of_dict_remove)

lemma quantity_of_add_required_items:
  "quantity_of (snd (add_required_items pq items queue ing)) n =
     quantity_of ing n + pq * required_quantity items n"
  by (simp add: quantity_of_def [of "snd (add_required_items pq items queue ing)"]
      map_of_add_required_items required_quantity_absent)
    (simp add: quantity_of_def)

lemma positive_inv_step:
  assumes pos: "positive_quantities cb"
    and inv: "positive_inv cb (c # rest) ing"
    and look: "look_for_item c cb = Some item"
    and proc: "process_item item rest ing = Inr (q', ing')"
  shows "positive_inv cb q' ing'"
proof -
  have nm: "name item = c" using look by (rule look_for_item_name)
  from inv have N: "\<And>n. 0 \<le> quantity_of ing n"
    and Q: "\<And>n. n \<in> set (c # rest) \<Longrightarrow> satisfied cb ing n"
    and K: "\<And>n. map_of ing n \<noteq> None \<Longrightarrow> satisfied cb ing n"
    by (auto simp: positive_inv_def)
  consider (recipe) "etype item = ''recipe''" | (ingredient) "etype item = ''ingredient''"
    | (other) "etype item \<noteq> ''recipe''" "etype item \<noteq> ''ingredient''"
    by blast
  then show ?thesis
  proof cases
    case recipe
    let ?items = "requiredItems item"
    let ?pq = "quantity_of ing c"
    from proc recipe nm have q': "q' = rest @ map item_name ?items"
      and ing': "ing' = snd (add_required_items ?pq ?items rest (filter (\<lambda>p. fst p \<noteq> c) ing))"
      by (simp_all add: process_item_recipe_eq)
    have pi: "\<forall>i \<in> set ?items. 0 < item_quantity i"
      using pos look recipe by (rule positive_items)
    have qn: "quantity_of ing' n = (if n = c then 0 else quantity_of ing n) + ?pq * required_quantity ?items n"
      for n
      unfolding ing' by (simp add: quantity_of_add_required_items quantity_of_remove)
    have rq0: "0 \<le> required_quantity ?items n" for n
      using pi by (rule required_quantity_nonneg)
    have N': "0 \<le> quantity_of ing' n" for n
      using N [of n] N [of c] rq0 [of n] by (simp add: qn)
    have children_pos: "satisfied cb ing' n" if "0 < ?pq" "n \<in> item_name ` set ?items" for n
    proof -
      have "0 < required_quantity ?items n" using pi that(2) by (rule required_quantity_pos)
      with that(1) have "0 < ?pq * required_quantity ?items n" by simp
      with N [of n] have "0 < quantity_of ing' n" by (auto simp: qn)
      then show ?thesis by (rule satisfied.pending)
    qed
    have step: "satisfied cb ing' n" if "0 < quantity_of ing n" for n
    proof (cases "n = c")
      case True
      with that have "0 < ?pq" by simp
      then have "\<forall>m \<in> item_name ` set ?items. satisfied cb ing' m"
        using children_pos by blast
      with look recipe True show ?thesis by (auto intro: satisfied.expanded)
    next
      case False
      have "0 \<le> ?pq * required_quantity ?items n" using N [of c] rq0 [of n] by simp
      with that False have "0 < quantity_of ing' n" by (simp add: qn)
      then show ?thesis by (rule satisfied.pending)
    qed
    have M: "satisfied cb ing' x" if "satisfied cb ing x" for x
      using that step by (rule satisfied_mono)
    have children: "satisfied cb ing' n" if "n \<in> item_name ` set ?items" for n
    proof -
      have "satisfied cb ing c" using Q [of c] by simp
      then show ?thesis
      proof (cases rule: satisfied.cases)
        case pending
        then show ?thesis using that by (rule children_pos)
      next
        case (expanded item')
        with look have "item' = item" by simp
        with expanded(3) that have "satisfied cb ing n" by blast
        then show ?thesis by (rule M)
      qed
    qed
    have "satisfied cb ing' n" if "n \<in> set q'" for n
      using that Q [of n] M children by (auto simp: q')
    moreover have "satisfied cb ing' n" if "map_of ing' n \<noteq> None" for n
    proof (cases "n \<in> item_name ` set ?items")
      case True
      then show ?thesis by (rule children)
    next
      case False
      with that have "map_of ing n \<noteq> None"
        unfolding ing' by (simp add: map_of_add_required_items map_of_dict_remove split: if_splits)
      then show ?thesis using K M by blast
    qed
    ultimately show ?thesis using N' by (simp add: positive_inv_def)
  next
    case ingredient
    from proc ingredient nm obtain info where info: "map_of ing c = Some info"
      and q': "q' = rest"
      and ing': "ing' = dict_set c (info\<lparr>unit_cook_time := cookTime item\<rparr>) ing"
      by (auto simp: process_item_ingredient_eq split: option.splits)
    have m: "map_of ing' = (map_of ing)(c \<mapsto> info\<lparr>unit_cook_time := cookTime item\<rparr>)"
      unfolding ing' by (rule map_of_dict_set)
    have qn: "quantity_of ing' n = quantity_of ing n" for n
      using info by (simp add: quantity_of_def m)
    have M: "satisfied cb ing' x" if "satisfied cb ing x" for x
      using that by (rule satisfied_mono) (simp add: satisfied.pending qn)
    have "map_of ing n \<noteq> None" if "map_of ing' n \<noteq> None" for n
      using that info by (cases "n = c") (simp_all add: m)
    with N Q K M show ?thesis by (auto simp: positive_inv_def q' qn)
  next
    case other
    with proc have "q' = rest" "ing' = ing" by (simp_all add: process_item_other_eq)
    with N Q K show ?thesis by (simp add: positive_inv_def)
  qed
qed

lemma positive_inv_initial:
  "positive_inv cb [nm] [(nm, \<lparr>quantity = 1, unit_cook_time = 0\<rparr>)]"
  by (auto simp: positive_inv_def quantity_of_def intro!: satisfied.pending split: if_splits)


lemma summary_final_positive_inv:
  assumes "summary cb nm = Some (Inr r)"
  obtains ing where
    "r = \<lparr>summary_name = nm, summary_cookTime = total_cooktime ing,
          summary_ingredients = ingredients_list ing\<rparr>"
    "loop_inv cb [] ing"
    "positive_quantities cb \<longrightarrow> positive_inv cb [] ing"
proof -
  from summary_Inr [OF assms] obtain ing where rc: "is_recipe cb nm"
    and loop: "summary_loop cb [nm] [(nm, \<lparr>quantity = 1, unit_cook_time = 0\<rparr>)] = Some (Inr ing)"
    and r: "r = \<lparr>summary_name = nm, summary_cookTime = total_cooktime ing,
          summary_ingredients = ingredients_list ing\<rparr>"
    by blast
  have 1: "loop_inv cb [] ing"
    using loop loop_inv_initial [OF rc]
    by (rule summary_loop_invariant) (rule loop_inv_step)
  have 2: "positive_inv cb [] ing" if pos: "positive_quantities cb"
    using loop positive_inv_initial
    by (rule summary_loop_invariant) (rule positive_inv_step [OF pos])
  from r 1 2 show ?thesis using that by blast
qed

text \<open>
  Claim C3, amended. Whenever \<open>summary\<close> succeeds, no name of a recipe, neither the
  root nor an intermediate recipe, is among the returned ingredients; when every entry of
  the cookbook is a recipe or an ingredient, every returned name is an ingredient of the
  cookbook; and when every quantity that a recipe of the cookbook requires is positive,
  every returned quantity is positive.
\<close>

theorem summary_ingredients_are_leaves:
  assumes "summary cb nm = Some (Inr r)"
  shows "list_all (\<lambda>(n, q). \<not> is_recipe cb n) (summary_ingredients r) \<and>
         nm \<notin> fst ` set (summary_ingredients r) \<and>
         (valid_types cb \<longrightarrow> list_all (\<lambda>(n, q). is_ingredient cb n) (summary_ingredients r)) \<and>
         (positive_quantities cb \<longrightarrow> list_all (\<lambda>(n, q). 0 < q) (summary_ingredients r))"
proof -
  from assms obtain ing where
    r: "r = \<lparr>summary_name = nm, summary_cookTime = total_cooktime ing,
          summary_ingredients = ingredients_list ing\<rparr>" and
    inv: "loop_inv cb [] ing" and
    pinv: "positive_quantities cb \<longrightarrow> positive_inv cb [] ing"
    by (rule summary_final_positive_inv)
  from inv have D: "distinct (map fst ing)" by (simp add: loop_inv_def)
  have leaf: "\<not> is_recipe cb n \<and> look_for_item n cb \<noteq> None" if "(n, i) \<in> set ing" for n i
  proof -
    from D that have "map_of ing n = Some i" by simp
    with inv show ?thesis by (auto simp: loop_inv_def)
  qed
  have 1: "list_all (\<lambda>(n, q). \<not> is_recipe cb n) (summary_ingredients r)"
    using leaf by (auto simp: r ingredients_list_def list_all_iff)
  have "is_recipe cb nm" using summary_Inr [OF assms] by simp
  with leaf have 2: "nm \<notin> fst ` set (summary_ingredients r)"
    by (auto simp: r ingredients_list_def)
  have 3: "list_all (\<lambda>(n, q). is_ingredient cb n) (summary_ingredients r)" if "valid_types cb"
    using leaf valid_types_look [OF that] by (auto simp: r ingredients_list_def list_all_iff)
  have 4: "list_all (\<lambda>(n, q). 0 < q) (summary_ingredients r)" if pos: "positive_quantities cb"
  proof -
    have "0 < quantity i" if mem: "(n, i) \<in> set ing" for n i
    proof -
      from D mem have m: "map_of ing n = Some i" by simp
      with pinv pos have "satisfied cb ing n" by (auto simp: positive_inv_def)
      then show ?thesis
      proof (cases rule: satisfied.cases)
        case pending
        with m show ?thesis by (simp add: quantity_of_def)
      next
        case (expanded item)
        with leaf [OF mem] show ?thesis by (simp add: is_recipe_def)
      qed
    qed
    then show ?thesis by (auto simp: r ingredients_list_def list_all_iff)
  qed
  from 1 2 3 4 show ?thesis by blast
qed

theorem summary_ingredients_are_leaves_witness:
  "summary [Recipe ''Cake'' [(''Dough'', 2), (''Egg'', 3)], Recipe ''Dough'' [(''Egg'', 1)],
            Ingredient ''Egg'' 1] ''Cake''
     = Some (Inr \<lparr>summary_name = ''Cake'', summary_cookTime = 5,
                     summary_ingredients = [(''Egg'', 5)]\<rparr>) \<and>
   valid_types [Recipe ''Cake'' [(''Dough'', 2), (''Egg'', 3)], Recipe ''Dough'' [(''Egg'', 1)],
            Ingredient ''Egg'' 1] \<and>
   positive_quantities [Recipe ''Cake'' [(''Dough'', 2), (''Egg'', 3)], Recipe ''Dough'' [(''Egg'', 1)],
            Ingredient ''Egg'' 1] \<and>
   is_ingredient [Recipe ''Cake'' [(''Dough'', 2), (''Egg'', 3)], Recipe ''Dough'' [(''Egg'', 1)],
            Ingredient ''Egg'' 1] ''Egg'' \<and>
   \<not> is_recipe [Recipe ''Cake'' [(''Dough'', 2), (''Egg'', 3)], Recipe ''Dough'' [(''Egg'', 1)],
            Ingredient ''Egg'' 1] ''Egg''"
proof -
  let ?cb = "[Recipe ''Cake'' [(''Dough'', 2), (''Egg'', 3)], Recipe ''Dough'' [(''Egg'', 1)],
            Ingredient ''Egg'' 1]"
  have s: "summary ?cb ''Cake''
     = Some (Inr \<lparr>summary_name = ''Cake'', summary_cookTime = 5,
                     summary_ingredients = [(''Egg'', 5)]\<rparr>)"
    by (simp add: summary_eval)
  have v: "valid_types ?cb"
    by (simp add: valid_types_def Recipe_def Ingredient_def)
  have p: "positive_quantities ?cb"
    by (simp add: positive_quantities_def Recipe_def Ingredient_def)
  from summary_ingredients_are_leaves [OF s] s v p show ?thesis by simp
qed

text \<open>
  Claim C3 says that every returned quantity is positive, for every cookbook.
  \<open>create_entry\<close> never looks at the quantities of the required items, so it stores a
  recipe that requires 0 Flour, and the summary of that recipe lists Flour at quantity 0:
  the response holds every entry of the dictionary, with no filter on the quantity.
\<close>

theorem summary_zero_quantity_returned:
  "create_entry [Ingredient ''Flour'' 2] (Recipe ''Cake'' [(''Flour'', 0)])
     = (Inr (), [Ingredient ''Flour'' 2, Recipe ''Cake'' [(''Flour'', 0)]]) \<and>
   summary [Ingredient ''Flour'' 2, Recipe ''Cake'' [(''Flour'', 0)]] ''Cake''
     = Some (Inr \<lparr>summary_name = ''Cake'', summary_cookTime = 0,
                     summary_ingredients = [(''Flour'', 0)]\<rparr>)"
  by (simp add: summary_eval create_entry_def store_cookbook_def)

subsection \<open>Missing references\<close>

lemma reaches_missing_within: "reaches_missing cb n \<Longrightarrow> \<exists>d. missing_within cb d n"
proof (induction rule: reaches_missing.induct)
  case (absent n)
  then have "missing_within cb 0 n" by simp
  then show ?case by blast
next
  case (through n item c)
  then obtain d where "missing_within cb d c" by blast
  with through have "missing_within cb (Suc d) n" by (auto simp: list_ex_iff)
  then show ?case by blast
qed

lemma process_item_queue:
  "process_item item rest ing = Inr (q', ing') \<Longrightarrow>
   q' = rest @ (if etype item = ''recipe'' then map item_name (requiredItems item) else [])"
  by (cases "etype item = ''recipe''"; cases "etype item = ''ingredient''")
    (auto simp: process_item_recipe_eq process_item_ingredient_eq process_item_other_eq
      split: option.splits)

lemma missing_reference_aborts_loop:
  assumes "loop_inv cb q ing" "i < length q" "missing_within cb d (q ! i)"
  shows "summary_loop cb q ing = Some (Inl (BadRequest ''Items not in the cookbook''))"
  using assms
proof (induction d arbitrary: q ing i rule: less_induct)
  case (less d)
  note outer = less.IH
  from less.prems show ?case
  proof (induction i arbitrary: q ing)
    case 0
    then obtain c rest where q: "q = c # rest" by (cases q) auto
    show ?case
    proof (cases "look_for_item c cb")
      case None
      with q show ?thesis by (simp add: summary_loop.simps)
    next
      case (Some item)
      from "0.prems"(1) q Some obtain q' ing' where
        proc: "process_item item rest ing = Inr (q', ing')"
        using loop_inv_no_KeyError by blast
      from "0.prems"(1) q Some proc have inv': "loop_inv cb q' ing'"
        using loop_inv_step by blast
      from "0.prems"(3) q Some obtain d' x where d: "d = Suc d'"
        and recipe: "etype item = ''recipe''"
        and x: "x \<in> set (requiredItems item)" "missing_within cb d' (item_name x)"
        by (cases d) (auto simp: list_ex_iff)
      from process_item_queue [OF proc] recipe
      have q': "q' = rest @ map item_name (requiredItems item)" by simp
      from x(1) have "item_name x \<in> set q'" by (simp add: q')
      then obtain j where j: "j < length q'" "q' ! j = item_name x"
        by (auto simp: in_set_conv_nth)
      have "summary_loop cb q' ing' = Some (Inl (BadRequest ''Items not in the cookbook''))"
        using outer [of d' q' ing' j] d inv' j x(2) by simp
      with q Some proc show ?thesis by (simp add: summary_loop.simps)
    qed
  next
    case (Suc j)
    then obtain c rest where q: "q = c # rest" by (cases q) auto
    show ?case
    proof (cases "look_for_item c cb")
      case None
      with q show ?thesis by (simp add: summary_loop.simps)
    next
      case (Some item)
      from Suc.prems(1) q Some obtain q' ing' where
        proc: "process_item item rest ing = Inr (q', ing')"
        using loop_inv_no_KeyError by blast
      from Suc.prems(1) q Some proc have inv': "loop_inv cb q' ing'"
        using loop_inv_step by blast
      from process_item_queue [OF proc] obtain more where q': "q' = rest @ more" by blast
      from Suc.prems(2) q have j: "j < length rest" by simp
      with q' have "j < length q'" "q' ! j = rest ! j" by (simp_all add: nth_append)
      with Suc.prems(3) q have "missing_within cb d (q' ! j)" by simp
      with Suc.IH [OF inv' \<open>j < length q'\<close>]
      have "summary_loop cb q' ing' = Some (Inl (BadRequest ''Items not in the cookbook''))" .
      with q Some proc show ?thesis by (simp add: summary_loop.simps)
    qed
  qed
qed

text \<open>
  Claim C6, amended. For every cookbook and every root that is a recipe, if a name that
  the cookbook does not hold can be reached from the root through the required items of
  recipes, then \<open>summary\<close> returns, and what it returns is the error response
  \<open>Items not in the cookbook\<close> with status 400, which does not carry the name; no
  summary, partial or otherwise, is returned.
\<close>

theorem summary_missing_reference_aborts:
  assumes "is_recipe cb nm" and "reaches_missing cb nm"
  shows "summary cb nm = Some (Inl (BadRequest ''Items not in the cookbook''))"
proof -
  from assms(1) obtain target where t: "look_for_item nm cb = Some target" "etype target = ''recipe''"
    by (auto simp: is_recipe_def split: option.splits)
  then have nm: "name target = nm" using look_for_item_name by blast
  from assms(2) obtain d where "missing_within cb d nm" using reaches_missing_within by blast
  then have "summary_loop cb [nm] [(nm, \<lparr>quantity = 1, unit_cook_time = 0\<rparr>)]
      = Some (Inl (BadRequest ''Items not in the cookbook''))"
    using missing_reference_aborts_loop [OF loop_inv_initial [OF assms(1)], of 0 d] by simp
  with t nm show ?thesis by (simp add: summary_def)
qed

theorem summary_missing_reference_aborts_witness:
  "is_recipe [Recipe ''Cake'' [(''Egg'', 1), (''Dough'', 1)], Recipe ''Dough'' [(''Sugar'', 2)],
              Ingredient ''Egg'' 1] ''Cake'' \<and>
   reaches_missing [Recipe ''Cake'' [(''Egg'', 1), (''Dough'', 1)], Recipe ''Dough'' [(''Sugar'', 2)],
              Ingredient ''Egg'' 1] ''Cake'' \<and>
   summary [Recipe ''Cake'' [(''Egg'', 1), (''Dough'', 1)], Recipe ''Dough'' [(''Sugar'', 2)],
              Ingredient ''Egg'' 1] ''Cake''
     = Some (Inl (BadRequest ''Items not in the cookbook''))"
proof -
  let ?cb = "[Recipe ''Cake'' [(''Egg'', 1), (''Dough'', 1)], Recipe ''Dough'' [(''Sugar'', 2)],
              Ingredient ''Egg'' 1]"
  have r: "is_recipe ?cb ''Cake''" by (simp add: is_recipe_def Recipe_def)
  have "reaches_missing ?cb ''Sugar''"
    by (rule reaches_missing.absent) (simp add: Recipe_def Ingredient_def)
  then have "reaches_missing ?cb ''Dough''"
    using reaches_missing.through [of "''Dough''" ?cb "Recipe ''Dough'' [(''Sugar'', 2)]" "''Sugar''"]
    by (simp add: Recipe_def Ingredient_def)
  then have m: "reaches_missing ?cb ''Cake''"
    using reaches_missing.through [of "''Cake''" ?cb
        "Recipe ''Cake'' [(''Egg'', 1), (''Dough'', 1)]" "''Dough''"]
    by (simp add: Recipe_def Ingredient_def)
  from summary_missing_reference_aborts [OF r m] r m show ?thesis by simp
qed

text \<open>
  Claim C6 says that the error carries the name of the missing reference. The response of
  the code is a fixed message: a cookbook that lacks Sugar and one that lacks Salt get the
  same response.
\<close>

theorem summary_missing_reference_unnamed:
  "summary [Recipe ''Cake'' [(''Sugar'', 1)]] ''Cake''
     = Some (Inl (BadRequest ''Items not in the cookbook'')) \<and>
   summary [Recipe ''Cake'' [(''Salt'', 1)]] ''Cake''
     = Some (Inl (BadRequest ''Items not in the cookbook''))"
  by (simp add: summary_eval)

section \<open>The summary does not depend on the order of the required items\<close>

subsection \<open>Expansions\<close>

lemma expansion_unique:
  assumes "expansion cb n f k" "expansion cb n g l"
  shows "f = g \<and> k = l"
  using assms
proof (induction arbitrary: g l rule: expansion.induct)
  case (leaf n item)
  from leaf.prems leaf.hyps show ?case
    by (cases rule: expansion.cases) auto
next
  case (node n item F K)
  from node.prems show ?case
  proof (cases rule: expansion.cases)
    case (leaf item')
    with node.hyps show ?thesis by simp
  next
    case (node item' G L)
    with node.hyps have item: "item' = item" by simp
    have eq: "F (item_name i) = G (item_name i) \<and> K (item_name i) = L (item_name i)"
      if "i \<in> set (requiredItems item)" for i
      using node.IH that node(5) item by blast
    have e1: "(\<lambda>m. sum_list (map (\<lambda>i. item_quantity i * F (item_name i) m) (requiredItems item)))
        = (\<lambda>m. sum_list (map (\<lambda>i. item_quantity i * G (item_name i) m) (requiredItems item)))"
    proof (rule ext)
      fix m
      have "map (\<lambda>i. item_quantity i * F (item_name i) m) (requiredItems item)
          = map (\<lambda>i. item_quantity i * G (item_name i) m) (requiredItems item)"
        using eq by (auto intro!: map_cong)
      then show "sum_list (map (\<lambda>i. item_quantity i * F (item_name i) m) (requiredItems item))
          = sum_list (map (\<lambda>i. item_quantity i * G (item_name i) m) (requiredItems item))"
        by (rule arg_cong)
    qed
    have "map (\<lambda>i. K (item_name i)) (requiredItems item)
        = map (\<lambda>i. L (item_name i)) (requiredItems item)"
      using eq by (auto intro!: map_cong)
    then have e2: "Suc (sum_list (map (\<lambda>i. K (item_name i)) (requiredItems item)))
        = Suc (sum_list (map (\<lambda>i. L (item_name i)) (requiredItems item)))"
      by (simp only:)
    from node(1,2) item
    have g: "g = (\<lambda>m. sum_list (map (\<lambda>i. item_quantity i * G (item_name i) m) (requiredItems item)))"
      and l: "l = Suc (sum_list (map (\<lambda>i. L (item_name i)) (requiredItems item)))"
      by simp_all
    from e1 e2 show ?thesis unfolding g l by (rule conjI)
  qed
qed

lemma expansion_found: "expansion cb n f k \<Longrightarrow> look_for_item n cb \<noteq> None"
  by (cases rule: expansion.cases) auto

lemma expansion_children:
  assumes "expansion cb n f k" "look_for_item n cb = Some item" "etype item = ''recipe''"
  obtains F K where
    "\<forall>i \<in> set (requiredItems item). expansion cb (item_name i) (F (item_name i)) (K (item_name i))"
    "f = (\<lambda>m. sum_list (map (\<lambda>i. item_quantity i * F (item_name i) m) (requiredItems item)))"
    "k = Suc (sum_list (map (\<lambda>i. K (item_name i)) (requiredItems item)))"
  using assms by (cases rule: expansion.cases) auto

lemma expansion_leaf:
  assumes "expansion cb n f k" "\<not> is_recipe cb n"
  shows "f = (\<lambda>m. if m = n then 1 else 0) \<and> k = 1"
  using assms by (cases rule: expansion.cases) (auto simp: is_recipe_def)

lemma expansion_from_children:
  assumes look: "look_for_item n cb = Some item" and recipe: "etype item = ''recipe''"
    and ch: "\<forall>c \<in> item_name ` set (requiredItems item). \<exists>f k. expansion cb c f k"
  shows "\<exists>f k. expansion cb n f k"
proof -
  from ch have "\<forall>c \<in> item_name ` set (requiredItems item). \<exists>p. expansion cb c (fst p) (snd p)"
    by auto
  then obtain P where P: "\<forall>c \<in> item_name ` set (requiredItems item). expansion cb c (fst (P c)) (snd (P c))"
    by (rule bchoice [THEN exE])
  then have "\<forall>i \<in> set (requiredItems item).
      expansion cb (item_name i) ((\<lambda>c. fst (P c)) (item_name i)) ((\<lambda>c. snd (P c)) (item_name i))"
    by simp
  from expansion.node [OF look recipe this] show ?thesis by blast
qed

lemma summary_loop_expansion:
  assumes "summary_loop cb q ing = Some y"
  shows "(\<exists>res. y = Inr res) \<longrightarrow> (\<forall>n \<in> set q. \<exists>f k. expansion cb n f k)"
  using assms
proof (induction rule: summary_loop_induct)
  case (step loop cb q ing y)
  show ?case
  proof (intro impI ballI)
    fix n assume y: "\<exists>res. y = Inr res" and n: "n \<in> set q"
    then obtain c rest where q: "q = c # rest" by (cases q) auto
    with step(2) y obtain item q' ing' where
      look: "look_for_item c cb = Some item" and
      proc: "process_item item rest ing = Inr (q', ing')" and
      rec: "loop cb q' ing' = Some y"
      by (auto split: option.splits sum.splits)
    from step(1) [OF rec] y have IH: "\<forall>n \<in> set q'. \<exists>f k. expansion cb n f k" by blast
    from process_item_queue [OF proc]
    have q': "q' = rest @ (if etype item = ''recipe'' then map item_name (requiredItems item) else [])" .
    show "\<exists>f k. expansion cb n f k"
    proof (cases "n = c")
      case True
      show ?thesis
      proof (cases "etype item = ''recipe''")
        case recipe: True
        with q' IH have "\<forall>c \<in> item_name ` set (requiredItems item). \<exists>f k. expansion cb c f k"
          by auto
        with look recipe True show ?thesis using expansion_from_children by blast
      next
        case False
        with look True show ?thesis using expansion.leaf by blast
      qed
    next
      case False
      with n q have "n \<in> set rest" by simp
      with q' IH show ?thesis by auto
    qed
  qed
qed


lemma keys_map_of: "fst ` set ing = {n. map_of ing n \<noteq> None}"
  by (auto simp: map_of_eq_None_iff)

lemma keys_add_required_items:
  "fst ` set (snd (add_required_items pq items queue ing)) = fst ` set ing \<union> item_name ` set items"
  unfolding keys_map_of by (auto simp: map_of_add_required_items split: if_splits)

lemma keys_remove: "fst ` set (filter (\<lambda>p. fst p \<noteq> c) ing) = fst ` set ing - {c}"
  by auto

lemma quantity_of_outside: "n \<notin> fst ` set ing \<Longrightarrow> quantity_of ing n = 0"
  by (simp add: quantity_of_def map_of_eq_None_iff [symmetric])

lemma potential_superset:
  assumes "finite S" "fst ` set ing \<subseteq> S"
  shows "(\<Sum>n \<in> S. quantity_of ing n * W n m) = potential W ing m"
  unfolding potential_def
  by (rule sum.mono_neutral_right) (use assms in \<open>auto simp: quantity_of_outside\<close>)

lemma regroup_required:
  assumes "finite S" "item_name ` set items \<subseteq> S"
  shows "(\<Sum>n \<in> S. required_quantity items n * g n)
       = sum_list (map (\<lambda>i. item_quantity i * g (item_name i)) items)"
  using assms(2)
proof (induction items)
  case Nil
  then show ?case by (simp add: required_quantity_Nil)
next
  case (Cons i items)
  have "(\<Sum>n \<in> S. required_quantity (i # items) n * g n)
      = (\<Sum>n \<in> S. (if item_name i = n then item_quantity i * g n else 0))
        + (\<Sum>n \<in> S. required_quantity items n * g n)"
    by (simp add: required_quantity_Cons distrib_right sum.distrib if_distrib [of "\<lambda>x. x * _"]
        cong: if_cong)
  also have "(\<Sum>n \<in> S. (if item_name i = n then item_quantity i * g n else 0))
      = item_quantity i * g (item_name i)"
    using assms(1) Cons.prems by simp
  finally show ?case using Cons by simp
qed

lemma potential_recipe_step:
  assumes W: "\<And>m. W c m = sum_list (map (\<lambda>i. item_quantity i * W (item_name i) m) items)"
    and ing': "ing' = snd (add_required_items (quantity_of ing c) items rest
                 (filter (\<lambda>p. fst p \<noteq> c) ing))"
  shows "potential W ing' m = potential W ing m"
proof -
  let ?S = "fst ` set ing \<union> item_name ` set items"
  have fin: "finite ?S" by simp
  have k': "fst ` set ing' \<subseteq> ?S"
    unfolding ing' by (auto simp: keys_add_required_items)
  have qn: "quantity_of ing' n = (if n = c then 0 else quantity_of ing n)
      + quantity_of ing c * required_quantity items n" for n
    unfolding ing' by (simp add: quantity_of_add_required_items quantity_of_remove)
  have "potential W ing' m = (\<Sum>n \<in> ?S. quantity_of ing' n * W n m)"
    using potential_superset [OF fin k'] by simp
  also have "\<dots> = (\<Sum>n \<in> ?S. (if n = c then 0 else quantity_of ing n * W n m))
      + quantity_of ing c * (\<Sum>n \<in> ?S. required_quantity items n * W n m)"
    by (simp add: qn distrib_right sum.distrib sum_distrib_left mult.assoc
        if_distrib [of "\<lambda>x. x * _"] cong: if_cong)
  also have "(\<Sum>n \<in> ?S. required_quantity items n * W n m) = W c m"
    using regroup_required [OF fin, of items "\<lambda>n. W n m"] W by simp
  also have "(\<Sum>n \<in> ?S. (if n = c then 0 else quantity_of ing n * W n m))
      = (\<Sum>n \<in> ?S. quantity_of ing n * W n m) - quantity_of ing c * W c m"
  proof (cases "c \<in> ?S")
    case True
    with fin show ?thesis by (simp add: sum.remove [of ?S c] sum.If_cases Diff_eq [symmetric])
  next
    case False
    then have "quantity_of ing c = 0" by (simp add: quantity_of_outside)
    moreover from False have "(\<Sum>n \<in> ?S. (if n = c then 0 else quantity_of ing n * W n m))
      = (\<Sum>n \<in> ?S. quantity_of ing n * W n m)"
      by (intro sum.cong) auto
    ultimately show ?thesis by simp
  qed
  also have "(\<Sum>n \<in> ?S. quantity_of ing n * W n m) = potential W ing m"
    by (rule potential_superset) auto
  finally show ?thesis by simp
qed

subsection \<open>The dictionary and the expansion of the root\<close>

lemma leaves_recipe:
  assumes "look_for_item n cb = Some item" "etype item = ''recipe''"
  shows "leaves cb n = (\<Union>c \<in> item_name ` set (requiredItems item). leaves cb c)"
proof (intro set_eqI iffI)
  fix m assume "m \<in> leaves cb n"
  then have r: "reaches cb n m" and nr: "\<not> is_recipe cb m" by (simp_all add: leaves_def)
  from r show "m \<in> (\<Union>c \<in> item_name ` set (requiredItems item). leaves cb c)"
  proof (cases rule: reaches.cases)
    case here
    with assms nr show ?thesis by (simp add: is_recipe_def)
  next
    case (below item' c)
    with assms have "item' = item" by simp
    with below nr show ?thesis by (auto simp: leaves_def)
  qed
next
  fix m assume "m \<in> (\<Union>c \<in> item_name ` set (requiredItems item). leaves cb c)"
  then obtain c where c: "c \<in> item_name ` set (requiredItems item)" "reaches cb c m"
    "\<not> is_recipe cb m"
    by (auto simp: leaves_def)
  from reaches.below [OF assms c(1,2)] c(3) show "m \<in> leaves cb n" by (simp add: leaves_def)
qed

lemma leaves_leaf:
  assumes "\<not> is_recipe cb n"
  shows "leaves cb n = {n}"
proof (intro set_eqI iffI)
  fix m assume "m \<in> leaves cb n"
  then have "reaches cb n m" by (simp add: leaves_def)
  then show "m \<in> {n}"
  proof (cases rule: reaches.cases)
    case here
    then show ?thesis by simp
  next
    case (below item c)
    with assms show ?thesis by (simp add: is_recipe_def)
  qed
next
  fix m assume "m \<in> {n}"
  with assms show "m \<in> leaves cb n" by (simp add: leaves_def reaches.here)
qed

lemma cook_time_of_remove:
  "cook_time_of (filter (\<lambda>p. fst p \<noteq> c) ing) n = (if n = c then 0 else cook_time_of ing n)"
  by (simp add: cook_time_of_def map_of_dict_remove)

lemma demand_inv_step:
  assumes W: "\<And>n f k. expansion cb n f k \<Longrightarrow> W n = f"
    and inv: "demand_inv cb W D L (c # rest) ing"
    and look: "look_for_item c cb = Some item"
    and proc: "process_item item rest ing = Inr (q', ing')"
  shows "demand_inv cb W D L q' ing'"
proof -
  have nm: "name item = c" using look by (rule look_for_item_name)
  from inv have li: "loop_inv cb (c # rest) ing"
    and E: "\<And>n. n \<in> set (c # rest) \<Longrightarrow> \<exists>f k. expansion cb n f k"
    and P: "\<And>m. potential W ing m = D m"
    and LV: "(\<Union>n \<in> fst ` set ing \<union> set (c # rest). leaves cb n) = L"
    and U: "\<And>n i. map_of ing n = Some i \<Longrightarrow> \<not> is_ingredient cb n \<Longrightarrow> unit_cook_time i = 0"
    by (auto simp: demand_inv_def)
  have li': "loop_inv cb q' ing'" using li look proc by (rule loop_inv_step)
  consider (recipe) "etype item = ''recipe''" | (ingredient) "etype item = ''ingredient''"
    | (other) "etype item \<noteq> ''recipe''" "etype item \<noteq> ''ingredient''"
    by blast
  then show ?thesis
  proof cases
    case recipe
    let ?items = "requiredItems item"
    from proc recipe nm have q': "q' = rest @ map item_name ?items"
      and ing': "ing' = snd (add_required_items (quantity_of ing c) ?items rest
                 (filter (\<lambda>p. fst p \<noteq> c) ing))"
      by (simp_all add: process_item_recipe_eq)
    from E [of c] obtain f k where ex: "expansion cb c f k" by auto
    from ex look recipe obtain F K where
      ch: "\<forall>i \<in> set ?items. expansion cb (item_name i) (F (item_name i)) (K (item_name i))"
      and f: "f = (\<lambda>m. sum_list (map (\<lambda>i. item_quantity i * F (item_name i) m) ?items))"
      by (rule expansion_children)
    have Wc: "W c m = sum_list (map (\<lambda>i. item_quantity i * W (item_name i) m) ?items)" for m
    proof -
      have "map (\<lambda>i. item_quantity i * F (item_name i) m) ?items
          = map (\<lambda>i. item_quantity i * W (item_name i) m) ?items"
        using ch W by (auto intro!: map_cong)
      then have "sum_list (map (\<lambda>i. item_quantity i * F (item_name i) m) ?items)
          = sum_list (map (\<lambda>i. item_quantity i * W (item_name i) m) ?items)"
        by (rule arg_cong)
      moreover have "W c m = f m" using W [OF ex] by simp
      ultimately show ?thesis by (simp only: f)
    qed
    have 1: "\<exists>f k. expansion cb n f k" if "n \<in> set q'" for n
      using that ch E [of n] by (auto simp: q')
    have 2: "potential W ing' m = D m" for m
      using potential_recipe_step [of W c ?items ing' ing rest m, OF Wc ing'] P by simp
    have keys: "fst ` set ing' = (fst ` set ing - {c}) \<union> item_name ` set ?items"
      unfolding ing' by (simp only: keys_add_required_items keys_remove)
    have lc: "leaves cb c = (\<Union>n \<in> item_name ` set ?items. leaves cb n)"
      using look recipe by (rule leaves_recipe)
    have "(\<Union>n \<in> fst ` set ing' \<union> set q'. leaves cb n)
        = (\<Union>n \<in> (fst ` set ing - {c}) \<union> set rest. leaves cb n) \<union> leaves cb c"
      unfolding keys q' lc by auto
    also have "\<dots> = (\<Union>n \<in> fst ` set ing \<union> set (c # rest). leaves cb n)"
      by auto
    finally have 3: "(\<Union>n \<in> fst ` set ing' \<union> set q'. leaves cb n) = L"
      using LV by simp
    have 4: "unit_cook_time i = 0" if "map_of ing' n = Some i" "\<not> is_ingredient cb n" for n i
    proof (cases "n \<in> item_name ` set ?items")
      case True
      with that(1) have "unit_cook_time i = cook_time_of (filter (\<lambda>p. fst p \<noteq> c) ing) n"
        unfolding ing' by (auto simp: map_of_add_required_items)
      also have "\<dots> = (if n = c then 0 else cook_time_of ing n)"
        by (rule cook_time_of_remove)
      also have "cook_time_of ing n = 0"
        using U [of n] that(2) by (auto simp: cook_time_of_def split: option.splits)
      finally show ?thesis by simp
    next
      case False
      with that(1) have "map_of ing n = Some i"
        unfolding ing' by (auto simp: map_of_add_required_items map_of_dict_remove split: if_splits)
      then show ?thesis using that(2) by (rule U)
    qed
    from li' 1 2 3 4 show ?thesis unfolding demand_inv_def by blast
  next
    case ingredient
    then have ic: "is_ingredient cb c" using look by (simp add: is_ingredient_def)
    from proc ingredient nm obtain info where info: "map_of ing c = Some info"
      and q': "q' = rest"
      and ing': "ing' = dict_set c (info\<lparr>unit_cook_time := cookTime item\<rparr>) ing"
      by (auto simp: process_item_ingredient_eq split: option.splits)
    have m: "map_of ing' = (map_of ing)(c \<mapsto> info\<lparr>unit_cook_time := cookTime item\<rparr>)"
      unfolding ing' by (rule map_of_dict_set)
    have ck: "c \<in> fst ` set ing" using info by (simp add: keys_map_of)
    then have keys: "fst ` set ing' = fst ` set ing"
      unfolding ing' by (auto simp: keys_dict_set)
    have qn: "quantity_of ing' n = quantity_of ing n" for n
      using info by (simp add: quantity_of_def m)
    have 1: "\<exists>f k. expansion cb n f k" if "n \<in> set q'" for n
      using that E [of n] by (simp add: q')
    have 2: "potential W ing' m = D m" for m
      using P [of m] by (simp add: potential_def keys qn)
    have "(\<Union>n \<in> fst ` set ing' \<union> set q'. leaves cb n)
        = (\<Union>n \<in> fst ` set ing \<union> set (c # rest). leaves cb n)"
      unfolding keys q' using ck by auto
    with LV have 3: "(\<Union>n \<in> fst ` set ing' \<union> set q'. leaves cb n) = L" by simp
    have 4: "unit_cook_time i = 0" if "map_of ing' n = Some i" "\<not> is_ingredient cb n" for n i
    proof -
      from that(2) ic have "n \<noteq> c" by auto
      with that(1) have "map_of ing n = Some i" by (simp add: m)
      then show ?thesis using that(2) by (rule U)
    qed
    from li' 1 2 3 4 show ?thesis unfolding demand_inv_def by blast
  next
    case other
    with proc have q': "q' = rest" and ing': "ing' = ing" by (simp_all add: process_item_other_eq)
    from other look have "\<not> is_recipe cb c" by (simp add: is_recipe_def)
    with li have "map_of ing c \<noteq> None" by (auto simp: loop_inv_def)
    then have ck: "c \<in> fst ` set ing" by (simp add: keys_map_of)
    have "(\<Union>n \<in> fst ` set ing' \<union> set q'. leaves cb n)
        = (\<Union>n \<in> fst ` set ing \<union> set (c # rest). leaves cb n)"
      unfolding ing' q' using ck by auto
    with LV have 3: "(\<Union>n \<in> fst ` set ing' \<union> set q'. leaves cb n) = L" by simp
    from li' E P 3 U show ?thesis unfolding demand_inv_def q' ing' by auto
  qed
qed

lemma demand_inv_final:
  assumes W: "\<And>n f k. expansion cb n f k \<Longrightarrow> W n = f"
    and inv: "demand_inv cb W D L [] ing"
  shows "distinct (map fst ing) \<and> fst ` set ing = L \<and>
         (\<forall>(m, i) \<in> set ing. quantity i = D m \<and> unit_cook_time i = effective_cook_time cb m)"
proof -
  from inv have li: "loop_inv cb [] ing"
    and P: "\<And>m. potential W ing m = D m"
    and LV: "(\<Union>n \<in> fst ` set ing. leaves cb n) = L"
    and U: "\<And>n i. map_of ing n = Some i \<Longrightarrow> \<not> is_ingredient cb n \<Longrightarrow> unit_cook_time i = 0"
    by (auto simp: demand_inv_def)
  from li have D: "distinct (map fst ing)" by (simp add: loop_inv_def)
  have key: "\<not> is_recipe cb n \<and> look_for_item n cb \<noteq> None" if "n \<in> fst ` set ing" for n
  proof -
    from that obtain i where "map_of ing n = Some i" by (auto simp: keys_map_of)
    with li show ?thesis by (auto simp: loop_inv_def)
  qed
  have "(\<Union>n \<in> fst ` set ing. leaves cb n) = (\<Union>n \<in> fst ` set ing. {n})"
    using key by (simp add: leaves_leaf)
  with LV have keys: "fst ` set ing = L" by simp
  have Wn: "W n m = (if m = n then 1 else 0)" if "n \<in> fst ` set ing" for n m
  proof -
    from key [OF that] obtain item where item: "look_for_item n cb = Some item"
      "etype item \<noteq> ''recipe''"
      by (auto simp: is_recipe_def)
    from W [OF expansion.leaf [OF item]] show ?thesis by simp
  qed
  have q: "quantity_of ing m = D m" for m
  proof -
    have "potential W ing m = (\<Sum>n \<in> fst ` set ing. (if m = n then quantity_of ing n else 0))"
      unfolding potential_def by (rule sum.cong) (simp_all add: Wn)
    also have "\<dots> = (if m \<in> fst ` set ing then quantity_of ing m else 0)"
      by simp
    also have "\<dots> = quantity_of ing m"
      by (simp add: quantity_of_outside)
    finally show ?thesis using P [of m] by simp
  qed
  have "quantity i = D m \<and> unit_cook_time i = effective_cook_time cb m"
    if "(m, i) \<in> set ing" for m i
  proof -
    from D that have mo: "map_of ing m = Some i" by simp
    then have "quantity i = quantity_of ing m" by (simp add: quantity_of_def)
    with q have 1: "quantity i = D m" by simp
    have 2: "unit_cook_time i = effective_cook_time cb m"
    proof (cases "is_ingredient cb m")
      case True
      with li mo show ?thesis by (auto simp: loop_inv_def effective_cook_time_def)
    next
      case False
      with U [OF mo] show ?thesis by (simp add: effective_cook_time_def)
    qed
    from 1 2 show ?thesis ..
  qed
  with D keys show ?thesis by auto
qed

lemma summary_characterised:
  assumes "summary cb nm = Some (Inr r)"
  shows "\<exists>f k. expansion cb nm f k \<and> summary_name r = nm \<and>
           distinct (map fst (summary_ingredients r)) \<and>
           fst ` set (summary_ingredients r) = leaves cb nm \<and>
           (\<forall>(m, q) \<in> set (summary_ingredients r). q = f m) \<and>
           summary_cookTime r =
             sum_list (map (\<lambda>(m, q). q * effective_cook_time cb m) (summary_ingredients r))"
proof -
  from summary_Inr [OF assms] obtain ing where rc: "is_recipe cb nm"
    and loop: "summary_loop cb [nm] [(nm, \<lparr>quantity = 1, unit_cook_time = 0\<rparr>)] = Some (Inr ing)"
    and r: "r = \<lparr>summary_name = nm, summary_cookTime = total_cooktime ing,
          summary_ingredients = ingredients_list ing\<rparr>"
    by blast
  from summary_loop_expansion [OF loop] obtain f k where ex: "expansion cb nm f k" by auto
  define W where "W = (\<lambda>n. THE g. \<exists>k. expansion cb n g k)"
  have Wf: "W n = g" if "expansion cb n g k" for n g k
    unfolding W_def
  proof (rule the_equality)
    show "\<exists>k. expansion cb n g k" using that by blast
    show "g' = g" if "\<exists>k. expansion cb n g' k" for g'
      using that \<open>expansion cb n g k\<close> expansion_unique by blast
  qed
  have init: "demand_inv cb W f (leaves cb nm) [nm] [(nm, \<lparr>quantity = 1, unit_cook_time = 0\<rparr>)]"
    unfolding demand_inv_def
    using loop_inv_initial [OF rc] ex Wf [OF ex]
    by (auto simp: potential_def quantity_of_def)
  have "demand_inv cb W f (leaves cb nm) [] ing"
    using loop init
  proof (rule summary_loop_invariant)
    fix c rest ing item q' ing'
    assume "demand_inv cb W f (leaves cb nm) (c # rest) ing" "look_for_item c cb = Some item"
      "process_item item rest ing = Inr (q', ing')"
    with Wf show "demand_inv cb W f (leaves cb nm) q' ing'" by (rule demand_inv_step)
  qed
  with Wf have fin: "distinct (map fst ing) \<and> fst ` set ing = leaves cb nm \<and>
         (\<forall>(m, i) \<in> set ing. quantity i = f m \<and> unit_cook_time i = effective_cook_time cb m)"
    by (rule demand_inv_final)
  have 1: "distinct (map fst (summary_ingredients r))"
    using fin by (simp add: r ingredients_list_def comp_def case_prod_unfold)
  have 2: "fst ` set (summary_ingredients r) = leaves cb nm"
    using fin by (auto simp: r ingredients_list_def image_iff) force+
  have 3: "\<forall>(m, q) \<in> set (summary_ingredients r). q = f m"
    using fin by (auto simp: r ingredients_list_def)
  have e: "map (\<lambda>(k, info). quantity info * unit_cook_time info) ing
      = map (\<lambda>(k, info). quantity info * effective_cook_time cb k) ing"
    using fin by (auto intro!: map_cong)
  have "summary_cookTime r = sum_list (map (\<lambda>(k, info). quantity info * unit_cook_time info) ing)"
    by (simp add: r total_cooktime_def)
  also have "\<dots> = sum_list (map (\<lambda>(k, info). quantity info * effective_cook_time cb k) ing)"
    by (simp only: e)
  also have "\<dots> = sum_list (map (\<lambda>(m, q). q * effective_cook_time cb m) (summary_ingredients r))"
    by (simp add: r ingredients_list_def comp_def case_prod_unfold)
  finally have 4: "summary_cookTime r =
      sum_list (map (\<lambda>(m, q). q * effective_cook_time cb m) (summary_ingredients r))" .
  from ex 1 2 3 4 show ?thesis by (auto simp: r)
qed

subsection \<open>Termination where the root has an expansion\<close>

lemma summary_loop_terminates:
  assumes K: "\<And>n f k. expansion cb n f k \<Longrightarrow> K n = k"
    and "loop_inv cb q ing" and "\<forall>n \<in> set q. \<exists>f k. expansion cb n f k"
  shows "\<exists>res. summary_loop cb q ing = Some (Inr res)"
  using assms(2,3)
proof (induction "sum_list (map K q)" arbitrary: q ing rule: less_induct)
  case less
  show ?case
  proof (cases q)
    case Nil
    then show ?thesis by (simp add: summary_loop.simps)
  next
    case (Cons c rest)
    from less.prems(2) Cons obtain f k where ex: "expansion cb c f k" by auto
    then obtain item where look: "look_for_item c cb = Some item"
      using expansion_found by blast
    from less.prems(1) Cons look obtain q' ing' where
      proc: "process_item item rest ing = Inr (q', ing')"
      using loop_inv_no_KeyError by blast
    from less.prems(1) Cons look proc have inv': "loop_inv cb q' ing'"
      using loop_inv_step by blast
    have Kc: "K c = k" using K [OF ex] .
    have "(\<forall>n \<in> set q'. \<exists>f k. expansion cb n f k) \<and> sum_list (map K q') < sum_list (map K q)"
    proof (cases "etype item = ''recipe''")
      case True
      from process_item_queue [OF proc] True
      have q': "q' = rest @ map item_name (requiredItems item)" by simp
      from ex look True obtain F K' where
        ch: "\<forall>i \<in> set (requiredItems item).
               expansion cb (item_name i) (F (item_name i)) (K' (item_name i))"
        and k: "k = Suc (sum_list (map (\<lambda>i. K' (item_name i)) (requiredItems item)))"
        by (rule expansion_children)
      have "map (\<lambda>i. K' (item_name i)) (requiredItems item)
          = map (\<lambda>i. K (item_name i)) (requiredItems item)"
        using ch K by (auto intro!: map_cong)
      with k have "k = Suc (sum_list (map (\<lambda>i. K (item_name i)) (requiredItems item)))"
        by (simp only:)
      with Kc have "sum_list (map K q') < sum_list (map K q)"
        by (simp add: q' Cons comp_def)
      moreover have "\<forall>n \<in> set q'. \<exists>f k. expansion cb n f k"
        using less.prems(2) ch by (auto simp: q' Cons)
      ultimately show ?thesis by simp
    next
      case False
      from process_item_queue [OF proc] False have q': "q' = rest" by simp
      from False look have "\<not> is_recipe cb c" by (simp add: is_recipe_def)
      with ex have "k = 1" using expansion_leaf by blast
      with Kc have "sum_list (map K q') < sum_list (map K q)" by (simp add: q' Cons)
      moreover have "\<forall>n \<in> set q'. \<exists>f k. expansion cb n f k"
        using less.prems(2) by (simp add: q' Cons)
      ultimately show ?thesis by simp
    qed
    then obtain res where "summary_loop cb q' ing' = Some (Inr res)"
      using less.hyps [of q' ing'] inv' by blast
    with Cons look proc show ?thesis by (simp add: summary_loop.simps)
  qed
qed

lemma summary_from_expansion:
  assumes "is_recipe cb nm" "expansion cb nm f k"
  shows "\<exists>r. summary cb nm = Some (Inr r)"
proof -
  define K where "K = (\<lambda>n. THE k. \<exists>f. expansion cb n f k)"
  have K: "K n = k" if "expansion cb n f k" for n f k
    unfolding K_def
  proof (rule the_equality)
    show "\<exists>f. expansion cb n f k" using that by blast
    show "k' = k" if "\<exists>f. expansion cb n f k'" for k'
      using that \<open>expansion cb n f k\<close> expansion_unique by blast
  qed
  have "\<exists>res. summary_loop cb [nm] [(nm, \<lparr>quantity = 1, unit_cook_time = 0\<rparr>)] = Some (Inr res)"
    using K loop_inv_initial [OF assms(1)]
  proof (rule summary_loop_terminates)
    show "\<forall>n \<in> set [nm]. \<exists>f k. expansion cb n f k" using assms(2) by auto
  qed
  then obtain res where
    loop: "summary_loop cb [nm] [(nm, \<lparr>quantity = 1, unit_cook_time = 0\<rparr>)] = Some (Inr res)" ..
  from assms(1) obtain target where t: "look_for_item nm cb = Some target" "etype target = ''recipe''"
    by (auto simp: is_recipe_def split: option.splits)
  then have "name target = nm" using look_for_item_name by blast
  with t loop show ?thesis by (simp add: summary_def)
qed

subsection \<open>Reordering the required items\<close>

lemma reordered_look:
  assumes "reordered cb cb'"
  shows "rel_option (\<lambda>e e'. etype e = etype e' \<and> name e = name e' \<and> cookTime e = cookTime e' \<and>
                        mset (requiredItems e) = mset (requiredItems e'))
           (look_for_item n cb) (look_for_item n cb')"
  using assms unfolding reordered_def
  by (induction rule: list_all2_induct) auto

lemma reordered_look_Some:
  assumes "reordered cb cb'" "look_for_item n cb = Some item"
  obtains item' where "look_for_item n cb' = Some item'" "etype item' = etype item"
    "cookTime item' = cookTime item" "mset (requiredItems item') = mset (requiredItems item)"
  using reordered_look [OF assms(1), of n] assms(2)
  by (cases "look_for_item n cb'") auto

lemma reordered_sym: "reordered cb cb' \<Longrightarrow> reordered cb' cb"
  unfolding reordered_def by (induction rule: list_all2_induct) auto

lemma reordered_refl: "reordered cb cb"
  unfolding reordered_def by (simp add: list_all2_refl)

lemma reordered_is_recipe: "reordered cb cb' \<Longrightarrow> is_recipe cb' n = is_recipe cb n"
  using reordered_look [of cb cb' n]
  by (cases "look_for_item n cb"; cases "look_for_item n cb'") (auto simp: is_recipe_def)

lemma reordered_effective_cook_time:
  "reordered cb cb' \<Longrightarrow> effective_cook_time cb' n = effective_cook_time cb n"
  using reordered_look [of cb cb' n]
  by (cases "look_for_item n cb"; cases "look_for_item n cb'")
    (auto simp: effective_cook_time_def is_ingredient_def catalog_cook_time_def)

lemma reordered_reaches:
  assumes "reordered cb cb'" "reaches cb n m"
  shows "reaches cb' n m"
  using assms(2)
proof (induction rule: reaches.induct)
  case (here n)
  show ?case by (rule reaches.here)
next
  case (below n item c m)
  from assms(1) below(1) obtain item' where i': "look_for_item n cb' = Some item'"
    "etype item' = etype item" "mset (requiredItems item') = mset (requiredItems item)"
    by (rule reordered_look_Some)
  from i'(3) have "set (requiredItems item') = set (requiredItems item)" by (rule mset_eq_setD)
  with below(3) have "c \<in> item_name ` set (requiredItems item')" by simp
  with i' below show ?case by (auto intro: reaches.below)
qed

lemma reordered_leaves:
  assumes "reordered cb cb'"
  shows "leaves cb' n = leaves cb n"
  using reordered_reaches [OF assms] reordered_reaches [OF reordered_sym [OF assms]]
    reordered_is_recipe [OF assms]
  by (auto simp: leaves_def)

lemma sum_list_mset_cong:
  "mset xs = mset ys \<Longrightarrow> sum_list (map g xs) = sum_list (map (g :: 'a \<Rightarrow> 'b :: comm_monoid_add) ys)"
proof -
  assume "mset xs = mset ys"
  then have "mset (map g xs) = mset (map g ys)" by simp
  then have "sum_mset (mset (map g xs)) = sum_mset (mset (map g ys))" by (rule arg_cong)
  then show ?thesis by (simp only: sum_mset_sum_list)
qed

lemma reordered_expansion:
  assumes "reordered cb cb'" "expansion cb n f k"
  shows "expansion cb' n f k"
  using assms(2)
proof (induction rule: expansion.induct)
  case (leaf n item)
  from assms(1) leaf(1) obtain item' where i': "look_for_item n cb' = Some item'"
    "etype item' = etype item"
    by (rule reordered_look_Some)
  from i'(2) leaf(2) have "etype item' \<noteq> ''recipe''" by simp
  with i'(1) show ?case by (rule expansion.leaf)
next
  case (node n item F K)
  from assms(1) node(1) obtain item' where i': "look_for_item n cb' = Some item'"
    "etype item' = etype item" "mset (requiredItems item') = mset (requiredItems item)"
    by (rule reordered_look_Some)
  from i'(3) have "set (requiredItems item') = set (requiredItems item)" by (rule mset_eq_setD)
  with node.IH have ch: "\<forall>i \<in> set (requiredItems item').
      expansion cb' (item_name i) (F (item_name i)) (K (item_name i))"
    by simp
  from i'(2) node(2) have "etype item' = ''recipe''" by simp
  from expansion.node [OF i'(1) this ch]
  have "expansion cb' n
       (\<lambda>m. sum_list (map (\<lambda>i. item_quantity i * F (item_name i) m) (requiredItems item')))
       (Suc (sum_list (map (\<lambda>i. K (item_name i)) (requiredItems item'))))" .
  moreover have "sum_list (map (\<lambda>i. item_quantity i * F (item_name i) m) (requiredItems item'))
      = sum_list (map (\<lambda>i. item_quantity i * F (item_name i) m) (requiredItems item))" for m
    using i'(3) by (rule sum_list_mset_cong)
  moreover have "sum_list (map (\<lambda>i. K (item_name i)) (requiredItems item'))
      = sum_list (map (\<lambda>i. K (item_name i)) (requiredItems item))"
    using i'(3) by (rule sum_list_mset_cong)
  ultimately show ?case by simp
qed

lemma pairs_determined:
  assumes "\<forall>(m, q) \<in> set xs. q = f m"
  shows "set xs = (\<lambda>m. (m, f m)) ` fst ` set xs"
proof (intro set_eqI iffI)
  fix p assume p: "p \<in> set xs"
  with assms have "snd p = f (fst p)" by (auto simp: case_prod_unfold)
  then have "p = (fst p, f (fst p))" by (simp add: prod_eq_iff)
  with p show "p \<in> (\<lambda>m. (m, f m)) ` fst ` set xs" by (metis imageI)
next
  fix p assume "p \<in> (\<lambda>m. (m, f m)) ` fst ` set xs"
  then obtain p' where p': "p' \<in> set xs" "p = (fst p', f (fst p'))" by auto
  from assms p'(1) have "snd p' = f (fst p')" by (auto simp: case_prod_unfold)
  with p'(2) have "p = p'" by (simp add: prod_eq_iff)
  with p'(1) show "p \<in> set xs" by simp
qed

text \<open>
  Claim C7. \<open>summary\<close> is a function of the cookbook and the name, so repeated calls on
  an unchanged cookbook give the same value. It does not depend on the order of the
  required items either: when two cookbooks differ only in the order of the required
  items of their recipes (the same multiset of required items in each recipe) and
  \<open>summary\<close> succeeds on the first, it succeeds on the second, and the two summaries
  have the same name, the same total cook time and the same ingredients with the same
  quantities (the two lists are equal as multisets of pairs).
\<close>

theorem summary_reorder_invariant:
  assumes "reordered cb cb'" and "summary cb nm = Some (Inr r)"
  shows "\<exists>r'. summary cb' nm = Some (Inr r') \<and>
              summary_name r' = summary_name r \<and>
              summary_cookTime r' = summary_cookTime r \<and>
              mset (summary_ingredients r') = mset (summary_ingredients r)"
proof -
  from summary_characterised [OF assms(2)] obtain f k where
    ex: "expansion cb nm f k" and n: "summary_name r = nm"
    and d: "distinct (map fst (summary_ingredients r))"
    and l: "fst ` set (summary_ingredients r) = leaves cb nm"
    and q: "\<forall>(m, q) \<in> set (summary_ingredients r). q = f m"
    and t: "summary_cookTime r =
      sum_list (map (\<lambda>(m, q). q * effective_cook_time cb m) (summary_ingredients r))"
    by blast
  from summary_Inr [OF assms(2)] have "is_recipe cb nm" by simp
  then have rc': "is_recipe cb' nm" using assms(1) by (simp add: reordered_is_recipe)
  have ex': "expansion cb' nm f k" using assms(1) ex by (rule reordered_expansion)
  from summary_from_expansion [OF rc' ex'] obtain r' where s': "summary cb' nm = Some (Inr r')" ..
  from summary_characterised [OF s'] obtain f' k' where
    ex2: "expansion cb' nm f' k'" and n': "summary_name r' = nm"
    and d': "distinct (map fst (summary_ingredients r'))"
    and l': "fst ` set (summary_ingredients r') = leaves cb' nm"
    and q': "\<forall>(m, q) \<in> set (summary_ingredients r'). q = f' m"
    and t': "summary_cookTime r' =
      sum_list (map (\<lambda>(m, q). q * effective_cook_time cb' m) (summary_ingredients r'))"
    by blast
  from expansion_unique [OF ex2 ex'] have ff: "f' = f" by simp
  have "set (summary_ingredients r') = (\<lambda>m. (m, f m)) ` leaves cb nm"
    using pairs_determined [OF q'] l' ff reordered_leaves [OF assms(1)] by simp
  moreover have "set (summary_ingredients r) = (\<lambda>m. (m, f m)) ` leaves cb nm"
    using pairs_determined [OF q] l by simp
  ultimately have "set (summary_ingredients r') = set (summary_ingredients r)" by simp
  moreover from d have "distinct (summary_ingredients r)" by (simp add: distinct_map)
  moreover from d' have "distinct (summary_ingredients r')" by (simp add: distinct_map)
  ultimately have ms: "mset (summary_ingredients r') = mset (summary_ingredients r)"
    by (simp add: set_eq_iff_mset_eq_distinct)
  have "(\<lambda>(m, q). q * effective_cook_time cb' m) = (\<lambda>(m, q :: int). q * effective_cook_time cb m)"
    using reordered_effective_cook_time [OF assms(1)] by simp
  with t' have "summary_cookTime r' =
      sum_list (map (\<lambda>(m, q). q * effective_cook_time cb m) (summary_ingredients r'))"
    by simp
  also have "\<dots> = sum_list (map (\<lambda>(m, q). q * effective_cook_time cb m) (summary_ingredients r))"
    using ms by (rule sum_list_mset_cong)
  finally have "summary_cookTime r' = summary_cookTime r" using t by simp
  with s' n n' ms show ?thesis by simp
qed


theorem summary_reorder_invariant_witness:
  "reordered
     [Recipe ''Cake'' [(''Flour'', 2), (''Egg'', 1), (''Dough'', 1)], Recipe ''Dough'' [(''Egg'', 3), (''Flour'', 1)],
      Ingredient ''Flour'' 1, Ingredient ''Egg'' 2]
     [Recipe ''Cake'' [(''Dough'', 1), (''Egg'', 1), (''Flour'', 2)], Recipe ''Dough'' [(''Egg'', 3), (''Flour'', 1)],
      Ingredient ''Flour'' 1, Ingredient ''Egg'' 2] \<and>
   summary
     [Recipe ''Cake'' [(''Flour'', 2), (''Egg'', 1), (''Dough'', 1)], Recipe ''Dough'' [(''Egg'', 3), (''Flour'', 1)],
      Ingredient ''Flour'' 1, Ingredient ''Egg'' 2] ''Cake''
     = Some (Inr \<lparr>summary_name = ''Cake'', summary_cookTime = 11,
                     summary_ingredients = [(''Flour'', 3), (''Egg'', 4)]\<rparr>) \<and>
   summary
     [Recipe ''Cake'' [(''Dough'', 1), (''Egg'', 1), (''Flour'', 2)], Recipe ''Dough'' [(''Egg'', 3), (''Flour'', 1)],
      Ingredient ''Flour'' 1, Ingredient ''Egg'' 2] ''Cake''
     = Some (Inr \<lparr>summary_name = ''Cake'', summary_cookTime = 11,
                     summary_ingredients = [(''Egg'', 4), (''Flour'', 3)]\<rparr>) \<and>
   mset [(''Egg'', 4 :: int), (''Flour'', 3)] = mset [(''Flour'', 3), (''Egg'', 4)]"
proof -
  let ?cb = "[Recipe ''Cake'' [(''Flour'', 2), (''Egg'', 1), (''Dough'', 1)],
      Recipe ''Dough'' [(''Egg'', 3), (''Flour'', 1)], Ingredient ''Flour'' 1, Ingredient ''Egg'' 2]"
  let ?cb' = "[Recipe ''Cake'' [(''Dough'', 1), (''Egg'', 1), (''Flour'', 2)],
      Recipe ''Dough'' [(''Egg'', 3), (''Flour'', 1)], Ingredient ''Flour'' 1, Ingredient ''Egg'' 2]"
  have ro: "reordered ?cb ?cb'"
    by (simp add: reordered_def Recipe_def Ingredient_def add_mset_commute)
  have s: "summary ?cb ''Cake''
     = Some (Inr \<lparr>summary_name = ''Cake'', summary_cookTime = 11,
                     summary_ingredients = [(''Flour'', 3), (''Egg'', 4)]\<rparr>)"
    by (simp add: summary_eval)
  have s': "summary ?cb' ''Cake''
     = Some (Inr \<lparr>summary_name = ''Cake'', summary_cookTime = 11,
                     summary_ingredients = [(''Egg'', 4), (''Flour'', 3)]\<rparr>)"
    by (simp add: summary_eval)
  from summary_reorder_invariant [OF ro s] obtain r' where
    a: "summary ?cb' ''Cake'' = Some (Inr r')" and
    b: "mset (summary_ingredients r') = mset [(''Flour'', 3), (''Egg'', 4)]"
    by auto
  from a s' have "summary_ingredients r' = [(''Egg'', 4), (''Flour'', 3)]" by auto
  with b have "mset [(''Egg'', 4 :: int), (''Flour'', 3)] = mset [(''Flour'', 3), (''Egg'', 4)]"
    by (simp only:)
  with ro s s' show ?thesis by (intro conjI)
qed

end
